theory Spec2Isabelle
  imports Main "HOL-Library.AList"
begin

section \<open>Symbolic expressions\<close>

text \<open>
  The memory manipulates Z3 terms. Only the constructors that
  \<^verbatim>\<open>memory/sym_memory.py\<close> and \<^verbatim>\<open>utility/z3_wrap_util.py\<close> build are
  represented: bit-vector numerals and variables, addition, subtraction, \<^verbatim>\<open>Extract\<close>, \<^verbatim>\<open>Concat\<close>,
  \<^verbatim>\<open>If\<close>, equality, \<^verbatim>\<open>Not\<close>, \<^verbatim>\<open>Or\<close>, and the array terms of the byte store.
  Values and Python integers are \<open>int\<close>, widths are \<open>nat\<close>.
\<close>

datatype bvx =
    BitVecVal int nat
  | BitVec string nat
  | BvAdd bvx bvx
  | BvSub bvx bvx
  | Extract nat nat bvx
  | Concat bvx bvx
  | IfBv boolx bvx bvx
  | Select arrx bvx
and boolx =
    Eq bvx bvx
  | Not boolx
  | Or "boolx list"
and arrx =
    Array int nat
  | Store arrx bvx bvx

text \<open>\<^verbatim>\<open>e.size()\<close>: the width of a bit-vector term. The byte store holds 8-bit values.\<close>

fun bv_size :: "bvx \<Rightarrow> nat" where
  "bv_size (BitVecVal v w) = w"
| "bv_size (BitVec x w) = w"
| "bv_size (BvAdd a b) = bv_size a"
| "bv_size (BvSub a b) = bv_size a"
| "bv_size (Extract hi lo e) = hi + 1 - lo"
| "bv_size (Concat a b) = bv_size a + bv_size b"
| "bv_size (IfBv c a b) = bv_size a"
| "bv_size (Select m i) = 8"

text \<open>An assignment gives every bit-vector variable and every array variable a value.\<close>

record env =
  bv_var :: "string \<Rightarrow> int"
  arr_var :: "int \<Rightarrow> int \<Rightarrow> int"

fun bv_eval :: "env \<Rightarrow> bvx \<Rightarrow> int"
  and bool_eval :: "env \<Rightarrow> boolx \<Rightarrow> bool"
  and arr_eval :: "env \<Rightarrow> arrx \<Rightarrow> int \<Rightarrow> int" where
  "bv_eval s (BitVecVal v w) = v mod 2 ^ w"
| "bv_eval s (BitVec x w) = bv_var s x mod 2 ^ w"
| "bv_eval s (BvAdd a b) = (bv_eval s a + bv_eval s b) mod 2 ^ bv_size a"
| "bv_eval s (BvSub a b) = (bv_eval s a - bv_eval s b) mod 2 ^ bv_size a"
| "bv_eval s (Extract hi lo e) = (bv_eval s e div 2 ^ lo) mod 2 ^ (hi + 1 - lo)"
| "bv_eval s (Concat a b) = bv_eval s a * 2 ^ bv_size b + bv_eval s b"
| "bv_eval s (IfBv c a b) = (if bool_eval s c then bv_eval s a else bv_eval s b) mod 2 ^ bv_size a"
| "bv_eval s (Select m i) = arr_eval s m (bv_eval s i) mod 2 ^ 8"
| "bool_eval s (Eq a b) = (bv_eval s a = bv_eval s b)"
| "bool_eval s (Not c) = (\<not> bool_eval s c)"
| "bool_eval s (Or cs) = list_ex (bool_eval s) cs"
| "arr_eval s (Array n w) = arr_var s n"
| "arr_eval s (Store m i v) = (arr_eval s m)(bv_eval s i := bv_eval s v)"

text \<open>A term is closed when it mentions no variable; every array term mentions one.\<close>

fun closed :: "bvx \<Rightarrow> bool"
  and closed_bool :: "boolx \<Rightarrow> bool" where
  "closed (BitVecVal v w) = True"
| "closed (BitVec x w) = False"
| "closed (BvAdd a b) = (closed a \<and> closed b)"
| "closed (BvSub a b) = (closed a \<and> closed b)"
| "closed (Extract hi lo e) = closed e"
| "closed (Concat a b) = (closed a \<and> closed b)"
| "closed (IfBv c a b) = (closed_bool c \<and> closed a \<and> closed b)"
| "closed (Select m i) = False"
| "closed_bool (Eq a b) = (closed a \<and> closed b)"
| "closed_bool (Not c) = closed_bool c"
| "closed_bool (Or cs) = list_all closed_bool cs"

definition env0 :: env where
  "env0 = \<lparr>bv_var = (\<lambda>x. 0), arr_var = (\<lambda>n i. 0)\<rparr>"

text \<open>
  \<^verbatim>\<open>z3.simplify\<close> returns an equivalent term. The model folds a closed bit-vector
  term to its numeral and leaves every other term as it is; on Boolean
  terms and on the byte store it is the identity.
\<close>

definition simplify :: "bvx \<Rightarrow> bvx" where
  "simplify e = (if closed e then BitVecVal (bv_eval env0 e) (bv_size e) else e)"

definition simplify_bool :: "boolx \<Rightarrow> boolx" where
  "simplify_bool c = c"

section \<open>utility/z3\_wrap\_util.py\<close>

datatype error = AssertionError | AttributeError | ZeroDivisionError | KeyError

definition MIN_BASE :: int where
  "MIN_BASE = 0x10000"

definition bvv :: "int \<Rightarrow> nat \<Rightarrow> bvx" where
  "bvv val sz = BitVecVal (val mod 2 ^ sz) sz"

definition split_bv :: "bvx \<Rightarrow> nat \<Rightarrow> bvx \<times> bvx" where
  "split_bv bv split_index =
     (simplify (Extract (bv_size bv - 1) split_index bv),
      simplify (Extract (split_index - 1) 0 bv))"

definition symbolic :: "bvx \<Rightarrow> bool" where
  "symbolic val = (case simplify val of BitVecVal v w \<Rightarrow> False | _ \<Rightarrow> True)"

definition bvv_to_long :: "bvx \<Rightarrow> error + int" where
  "bvv_to_long val =
     (if symbolic val then Inl AssertionError
      else (case simplify val of BitVecVal v w \<Rightarrow> Inr v | _ \<Rightarrow> Inl AttributeError))"

text \<open>
  \<^verbatim>\<open>heuristic_find_base\<close> walks the children of a term with a stack. A child can be
  a bit-vector, a Boolean or an array term; only a bit-vector term can simplify to a
  numeral, and \<^verbatim>\<open>as_long\<close> exists on numerals only.
\<close>

datatype node = NBv bvx | NBool boolx | NArr arrx

fun children :: "node \<Rightarrow> node list" where
  "children (NBv (BitVecVal v w)) = []"
| "children (NBv (BitVec x w)) = []"
| "children (NBv (BvAdd a b)) = [NBv a, NBv b]"
| "children (NBv (BvSub a b)) = [NBv a, NBv b]"
| "children (NBv (Extract hi lo e)) = [NBv e]"
| "children (NBv (Concat a b)) = [NBv a, NBv b]"
| "children (NBv (IfBv c a b)) = [NBool c, NBv a, NBv b]"
| "children (NBv (Select m i)) = [NArr m, NBv i]"
| "children (NBool (Eq a b)) = [NBv a, NBv b]"
| "children (NBool (Not c)) = [NBool c]"
| "children (NBool (Or cs)) = map NBool cs"
| "children (NArr (Array n w)) = []"
| "children (NArr (Store m i v)) = [NArr m, NBv i, NBv v]"

fun node_symbolic :: "node \<Rightarrow> bool" where
  "node_symbolic (NBv e) = symbolic e"
| "node_symbolic (NBool c) = True"
| "node_symbolic (NArr m) = True"

fun node_as_long :: "node \<Rightarrow> error + int" where
  "node_as_long (NBv (BitVecVal v w)) = Inr v"
| "node_as_long n = Inl AttributeError"

fun node_size :: "node \<Rightarrow> nat" where
  "node_size (NBv e) = 3 * size e + 1"
| "node_size (NBool c) = 3 * size c + 1"
| "node_size (NArr m) = 3 * size m + 1"


lemma children_smaller: "sum_list (map node_size (children n)) < node_size n"
proof (cases n)
  case (NBv e)
  then show ?thesis by (cases e) simp_all
next
  case (NBool c)
  show ?thesis
  proof (cases c)
    case (Or cs)
    have "sum_list (map (node_size \<circ> NBool) cs) \<le> 3 * size_list size cs"
      by (induction cs) simp_all
    with Or NBool show ?thesis by simp
  qed (simp_all add: NBool)
next
  case (NArr m)
  then show ?thesis by (cases m) simp_all
qed

lemma sum_butlast_last:
  "fringe \<noteq> [] \<Longrightarrow>
   sum_list (map node_size fringe) = sum_list (map node_size (butlast fringe)) + node_size (last fringe)"
  by (induction fringe) auto

function find_base_loop :: "node list \<Rightarrow> error + int" where
  "find_base_loop fringe =
     (if fringe = [] then Inr (- 1)
      else
        let el = last fringe; rest = butlast fringe in
        if \<not> node_symbolic el then
          (case node_as_long el of
             Inl e \<Rightarrow> Inl e
           | Inr v \<Rightarrow> if v > MIN_BASE then Inr v else find_base_loop (rest @ children el))
        else find_base_loop (rest @ children el))"
  by pat_completeness auto
termination
  by (relation "measure (\<lambda>fringe. sum_list (map node_size fringe))")
     (use children_smaller in \<open>auto simp: sum_butlast_last add.commute less_imp_le\<close>)

definition heuristic_find_base :: "bvx \<Rightarrow> error + int" where
  "heuristic_find_base val = find_base_loop (children (NBv val))"


section \<open>The byte store\<close>

text \<open>
  Modelled from the spec: the Byte Store (\<^verbatim>\<open>memory/memory_object.py\<close>, class
  \<^verbatim>\<open>MemoryObj\<close>, is not among the sources): a per-page, offset-indexed container of
  symbolic byte values with store-by-offset, load-by-offset, structural copy and
  expression simplification. It is an array term; a copy is a value of its own, so
  no two pages share a byte store.
\<close>

definition mo_new :: "int \<Rightarrow> nat \<Rightarrow> arrx" where
  "mo_new name bits = Array name bits"

definition mo_store :: "arrx \<Rightarrow> bvx \<Rightarrow> bvx \<Rightarrow> arrx" where
  "mo_store m index val = Store m index val"

definition mo_load :: "arrx \<Rightarrow> bvx \<Rightarrow> bvx" where
  "mo_load m index = Select m index"

definition mo_copy :: "arrx \<Rightarrow> arrx" where
  "mo_copy m = m"

definition mo_simplify :: "arrx \<Rightarrow> arrx" where
  "mo_simplify m = m"

section \<open>memory/sym\_memory.py: Page\<close>

text \<open>
  \<^verbatim>\<open>InitData(bytes, index)\<close> is a pair. A \<^verbatim>\<open>Page\<close> is a mutable object that two
  memories can hold at once (\<^verbatim>\<open>Page.copy\<close> returns \<^verbatim>\<open>self\<close>), so pages live in a heap
  and a page table holds references. \<open>next_ref\<close> is the next unused reference;
  \<open>errored\<close> is \<^verbatim>\<open>state.executor.fringe.errored\<close>.
\<close>

type_synonym InitData = "int list \<times> int"

record page =
  addr :: int
  size_p :: int
  bits_p :: nat
  mo :: arrx
  init_p :: "InitData option"
  lazycopy :: bool

record world =
  heap :: "nat \<Rightarrow> page"
  next_ref :: nat
  errored :: "(boolx list \<times> string) list"

definition Page :: "int \<Rightarrow> int \<Rightarrow> nat \<Rightarrow> InitData option \<Rightarrow> page" where
  "Page a sz bits ini =
     \<lparr>addr = a, size_p = sz, bits_p = bits, mo = mo_new a bits, init_p = ini, lazycopy = False\<rparr>"

definition alloc :: "page \<Rightarrow> world \<Rightarrow> nat \<times> world" where
  "alloc p w = (next_ref w, w\<lparr>heap := (heap w)(next_ref w := p), next_ref := Suc (next_ref w)\<rparr>)"

definition set_page :: "nat \<Rightarrow> page \<Rightarrow> world \<Rightarrow> world" where
  "set_page r p w = w\<lparr>heap := (heap w)(r := p)\<rparr>"

text \<open>The loop of \<^verbatim>\<open>lazy_init\<close>: byte \<open>i\<close> of the blob goes to offset \<^verbatim>\<open>start + i\<close>.\<close>

fun init_bytes :: "bvx \<Rightarrow> int list \<Rightarrow> nat \<Rightarrow> arrx \<Rightarrow> arrx" where
  "init_bytes start [] i m = m"
| "init_bytes start (subval # val) i m =
     init_bytes start val (Suc i)
       (mo_store m (BvAdd start (bvv (int i) (bv_size start))) (bvv subval 8))"

definition Page_lazy_init :: "nat \<Rightarrow> world \<Rightarrow> (error + unit) \<times> world" where
  "Page_lazy_init r w =
     (let p = heap w r in
      case init_p p of
        None \<Rightarrow> (Inr (), w)
      | Some (val, index) \<Rightarrow>
          if \<not> (int (length val) + index \<le> size_p p) then (Inl AssertionError, w)
          else (Inr (), set_page r
                  (p\<lparr>mo := init_bytes (bvv index (bits_p p)) val 0 (mo p), init_p := None\<rparr>) w))"

text \<open>
  \<^verbatim>\<open>Page.store\<close> without the copy-on-write branch: what the method does on a page
  whose \<^verbatim>\<open>_lazycopy\<close> is unset. The recursive call of \<^verbatim>\<open>Page.store\<close> is on a page it
  has just built, whose \<^verbatim>\<open>_lazycopy\<close> is False, so it is this function.
\<close>

definition Page_store_own :: "nat \<Rightarrow> bvx \<Rightarrow> bvx \<Rightarrow> world \<Rightarrow> (error + nat) \<times> world" where
  "Page_store_own r index val w =
     (case Page_lazy_init r w of
        (Inl e, w1) \<Rightarrow> (Inl e, w1)
      | (Inr u, w1) \<Rightarrow>
          (Inr r, set_page r ((heap w1 r)\<lparr>mo := mo_store (mo (heap w1 r)) index val\<rparr>) w1))"

text \<open>
  \<^verbatim>\<open>Page.store(index, value, condition)\<close> returns the page that owns the write. The
  parameter \<open>condition\<close> is received and not used by the method body.
\<close>

definition Page_store :: "nat \<Rightarrow> bvx \<Rightarrow> bvx \<Rightarrow> boolx option \<Rightarrow> world \<Rightarrow> (error + nat) \<times> world" where
  "Page_store r index val condition w =
     (case Page_lazy_init r w of
        (Inl e, w1) \<Rightarrow> (Inl e, w1)
      | (Inr u, w1) \<Rightarrow>
          if lazycopy (heap w1 r) then
            let w2 = set_page r ((heap w1 r)\<lparr>lazycopy := False\<rparr>) w1;
                self = heap w2 r;
                (r', w3) = alloc ((Page (addr self) (size_p self) (bits_p self) None)
                                    \<lparr>mo := mo_copy (mo self)\<rparr>) w2
            in Page_store_own r' index val w3
          else
            (Inr r, set_page r ((heap w1 r)\<lparr>mo := mo_store (mo (heap w1 r)) index val\<rparr>) w1))"

definition Page_load :: "nat \<Rightarrow> bvx \<Rightarrow> world \<Rightarrow> (error + bvx) \<times> world" where
  "Page_load r index w =
     (case Page_lazy_init r w of
        (Inl e, w1) \<Rightarrow> (Inl e, w1)
      | (Inr u, w1) \<Rightarrow> (Inr (mo_load (mo (heap w1 r)) index), w1))"

definition Page_copy :: "nat \<Rightarrow> world \<Rightarrow> nat \<times> world" where
  "Page_copy r w = (r, set_page r ((heap w r)\<lparr>lazycopy := True\<rparr>) w)"

section \<open>memory/sym\_memory.py: Memory\<close>

text \<open>
  \<open>pages\<close> is the dict \<^verbatim>\<open>self.pages\<close> in insertion order, from page slot to page
  reference. \<open>solver\<close> holds the path constraints of \<^verbatim>\<open>self.state.solver\<close>.
  \<open>index_bits\<close> is computed by the constructor in floating point
  (\<^verbatim>\<open>math.ceil(math.log(page_size, 2))\<close>) and is a field here.
\<close>

record memory =
  bits :: nat
  pages :: "(int \<times> nat) list"
  page_size :: int
  index_bits :: nat
  solver :: "boolx list"

text \<open>
  Modelled from the spec: the Solver capability and the policy flag (\<^verbatim>\<open>sym_solver\<close>
  and \<^verbatim>\<open>options\<close> are not among the sources). The queries take the path constraints
  and answer about an expression; \<^verbatim>\<open>add_constraints\<close> appends to the path constraints.
\<close>

record config =
  HEURISTIC_UNCONSTRAINED_MEM_ACCESS :: bool
  solver_symbolic :: "boolx list \<Rightarrow> bvx \<Rightarrow> bool"
  solver_evaluate_long :: "boolx list \<Rightarrow> bvx \<Rightarrow> int"
  solver_satisfiable :: "boolx list \<Rightarrow> boolx list \<Rightarrow> bool"
  solver_is_unconstrained :: "boolx list \<Rightarrow> bvx \<Rightarrow> bool"

definition add_constraints :: "boolx \<Rightarrow> memory \<Rightarrow> memory" where
  "add_constraints c m = m\<lparr>solver := solver m @ [c]\<rparr>"

definition has_page :: "memory \<Rightarrow> int \<Rightarrow> bool" where
  "has_page m a = (map_of (pages m) a \<noteq> None)"

text \<open>Python's \<^verbatim>\<open>xs[i:f]\<close>: a negative bound counts from the end, and bounds are clamped.\<close>

definition py_bound :: "nat \<Rightarrow> int \<Rightarrow> nat" where
  "py_bound n i = (if i < 0 then nat (max 0 (int n + i)) else min n (nat i))"

definition py_slice :: "'a list \<Rightarrow> int \<Rightarrow> int \<Rightarrow> 'a list" where
  "py_slice xs i f = take (py_bound (length xs) f - py_bound (length xs) i) (drop (py_bound (length xs) i) xs)"

text \<open>
  The loop of \<^verbatim>\<open>mmap\<close> over the slots. The loop state is
  \<open>(init_index, data_index_i, data_index_f)\<close>; without \<^verbatim>\<open>init\<close> the two data
  indices are never read.
\<close>

fun mmap_loop :: "int list \<Rightarrow> int list \<Rightarrow> int option \<times> int \<times> int \<Rightarrow> memory \<times> world \<Rightarrow> memory \<times> world" where
  "mmap_loop init_val [] st mw = mw"
| "mmap_loop init_val (a # slots) (init_index, data_index_i, data_index_f) (m, w) =
     (if \<not> has_page m a then
        let (init_data, st') =
              (case init_index of
                 None \<Rightarrow> (None, (None, data_index_i, data_index_f))
               | Some ix \<Rightarrow>
                   (Some (py_slice init_val data_index_i data_index_f, ix),
                    (Some 0, data_index_f, data_index_f + page_size m)));
            (r, w') = alloc (Page a (page_size m) (index_bits m) init_data) w
        in mmap_loop init_val slots st' (m\<lparr>pages := AList.update a r (pages m)\<rparr>, w')
      else mmap_loop init_val slots (init_index, data_index_i, data_index_f) (m, w))"

definition Memory_mmap :: "int \<Rightarrow> int \<Rightarrow> InitData option \<Rightarrow> memory \<times> world \<Rightarrow> (error + unit) \<times> memory \<times> world" where
  "Memory_mmap address sz ini mw =
     (let m = fst mw in
      if page_size m = 0 then (Inl ZeroDivisionError, mw)
      else if address mod page_size m \<noteq> 0 then (Inl AssertionError, mw)
      else if sz mod page_size m \<noteq> 0 then (Inl AssertionError, mw)
      else
        let st = (case ini of
                    None \<Rightarrow> (None, 0, 0)
                  | Some (bytes, index) \<Rightarrow> (Some index, 0, page_size m - index));
            init_val = (case ini of None \<Rightarrow> [] | Some (bytes, index) \<Rightarrow> bytes);
            first = address div page_size m
        in (Inr (), mmap_loop init_val [first .. first + sz div page_size m - 1] st mw))"

text \<open>
  The loop of \<^verbatim>\<open>get_unmapped\<close>. \<open>last_page\<close> is \<^verbatim>\<open>2**(bits - index_bits) - 4\<close>; the model
  covers \<open>index_bits \<le> bits\<close> (beyond it Python computes a float).
\<close>

function get_unmapped_loop :: "memory \<Rightarrow> int \<Rightarrow> bool \<Rightarrow> int \<Rightarrow> int \<Rightarrow> int \<Rightarrow> int \<Rightarrow> int" where
  "get_unmapped_loop m sz from_end last_page i j count =
     (if j \<le> last_page \<and> count \<noteq> sz then
        let (count', i') =
              (if \<not> has_page m i then (count + 1, i)
               else (0, if \<not> from_end then j + 1 else i));
            j' = j + 1;
            i'' = (if from_end then i' - 1 else i')
        in get_unmapped_loop m sz from_end last_page i'' j' count'
      else i)"
  by pat_completeness auto
termination
  by (relation "measure (\<lambda>(m, sz, from_end, last_page, i, j, count). nat (last_page + 1 - j))")
     (auto split: if_splits)

declare get_unmapped_loop.simps [simp del]

definition Memory_get_unmapped :: "memory \<Rightarrow> int \<Rightarrow> bool \<Rightarrow> int" where
  "Memory_get_unmapped m sz from_end =
     (let last_page = 2 ^ (bits m - index_bits m) - 4;
          i = (if from_end then last_page else 2)
      in get_unmapped_loop m sz from_end last_page i 2 0)"

text \<open>
  \<^verbatim>\<open>Memory.copy(state)\<close>: the new memory belongs to \<open>state\<close>, given by its path
  constraints. The constructor recomputes \<open>index_bits\<close> from the same \<open>page_size\<close>.
\<close>

fun copy_loop :: "(int \<times> nat) list \<Rightarrow> (int \<times> nat) list \<times> world \<Rightarrow> (int \<times> nat) list \<times> world" where
  "copy_loop [] nw = nw"
| "copy_loop ((page_addr, r) # ps) (new_pages, w) =
     (let (r', w') = Page_copy r w
      in copy_loop ps (AList.update page_addr r' new_pages, w'))"

definition Memory_copy :: "boolx list \<Rightarrow> memory \<times> world \<Rightarrow> memory \<times> world" where
  "Memory_copy state mw =
     (let m = fst mw;
          (new_pages, w') = copy_loop (pages m) ([], snd mw)
      in (\<lparr>bits = bits m, pages = new_pages, page_size = page_size m,
           index_bits = index_bits m, solver = state\<rparr>, w'))"


text \<open>
  \<^verbatim>\<open>Memory._store\<close>: the table entry becomes the page that \<^verbatim>\<open>Page.store\<close> returns.
\<close>

definition Memory_priv_store ::
  "int \<Rightarrow> bvx \<Rightarrow> bvx \<Rightarrow> boolx option \<Rightarrow> memory \<times> world \<Rightarrow> (error + unit) \<times> memory \<times> world" where
  "Memory_priv_store page_address page_index val condition mw =
     (let m = fst mw; w = snd mw in
      case map_of (pages m) page_address of
        None \<Rightarrow> (Inl AssertionError, m, w)
      | Some r \<Rightarrow>
          if bv_size val \<noteq> 8 then (Inl AssertionError, m, w)
          else
            (case Page_store r page_index val condition w of
               (Inl e, w') \<Rightarrow> (Inl e, m, w')
             | (Inr r', w') \<Rightarrow>
                 (Inr (), m\<lparr>pages := AList.update page_address r' (pages m)\<rparr>, w')))"

definition Memory_priv_load :: "int \<Rightarrow> bvx \<Rightarrow> memory \<times> world \<Rightarrow> (error + bvx) \<times> memory \<times> world" where
  "Memory_priv_load page_address page_index mw =
     (let m = fst mw; w = snd mw in
      case map_of (pages m) page_address of
        None \<Rightarrow> (Inl AssertionError, m, w)
      | Some r \<Rightarrow>
          (case Page_load r page_index w of
             (Inl e, w') \<Rightarrow> (Inl e, m, w')
           | (Inr b, w') \<Rightarrow> (Inr b, m, w')))"

text \<open>
  The test that opens \<^verbatim>\<open>store\<close> and \<^verbatim>\<open>load\<close>, with Python's short-circuit order, and
  the block it guards; \<open>n\<close> is the number of pages asked for.
\<close>

definition heuristic_fires :: "config \<Rightarrow> memory \<Rightarrow> bvx \<Rightarrow> error + bool" where
  "heuristic_fires cfg m address =
     (if \<not> HEURISTIC_UNCONSTRAINED_MEM_ACCESS cfg then Inr False
      else if \<not> symbolic address then Inr False
      else if \<not> solver_is_unconstrained cfg (solver m) address then Inr False
      else (case heuristic_find_base address of
              Inl e \<Rightarrow> Inl e
            | Inr b \<Rightarrow> Inr (b = - 1)))"

definition concretize :: "bvx \<Rightarrow> int \<Rightarrow> memory \<times> world \<Rightarrow> (error + bvx) \<times> memory \<times> world" where
  "concretize address n mw =
     (let address_conc = Memory_get_unmapped (fst mw) n False * page_size (fst mw) in
      case Memory_mmap address_conc (n * page_size (fst mw)) None mw of
        (Inl e, mw1) \<Rightarrow> (Inl e, mw1)
      | (Inr u, m1, w1) \<Rightarrow>
          (Inr (bvv address_conc (bv_size address)),
           add_constraints (Eq address (bvv address_conc (bv_size address))) m1, w1))"

definition resolve_address ::
  "config \<Rightarrow> bvx \<Rightarrow> int \<Rightarrow> memory \<times> world \<Rightarrow> (error + bvx) \<times> memory \<times> world" where
  "resolve_address cfg address sz mw =
     (case heuristic_fires cfg (fst mw) address of
        Inl e \<Rightarrow> (Inl e, mw)
      | Inr fires \<Rightarrow>
          if fires then
            (if page_size (fst mw) = 0 then (Inl ZeroDivisionError, mw)
             else concretize address (sz div page_size (fst mw) + 1) mw)
          else (Inr address, mw))"

text \<open>The symbolic tier of \<^verbatim>\<open>store\<close>: the loop over the keys of the page table.\<close>

fun store_sym_loop ::
  "config \<Rightarrow> bvx \<Rightarrow> bvx \<Rightarrow> bvx \<Rightarrow> int list \<Rightarrow> (int list \<times> boolx list) \<times> memory \<times> world
   \<Rightarrow> (error + int list \<times> boolx list) \<times> memory \<times> world" where
  "store_sym_loop cfg page_address page_index val [] (acc, mw) = (Inr acc, mw)"
| "store_sym_loop cfg page_address page_index val (p # ps) ((page_addresses, conditions), m, w) =
     (if solver_satisfiable cfg (solver m) [Eq page_address (bvv p (bv_size page_address))] then
        let condition = simplify_bool (Eq page_address (bvv p (bv_size page_address))) in
        (case Memory_priv_store p page_index val (Some condition) (m, w) of
           (Inl e, mw') \<Rightarrow> (Inl e, mw')
         | (Inr u, mw') \<Rightarrow>
             store_sym_loop cfg page_address page_index val ps
               ((List.insert p page_addresses, conditions @ [condition]), mw'))
      else store_sym_loop cfg page_address page_index val ps ((page_addresses, conditions), m, w))"

text \<open>
  One round of the byte loop of \<^verbatim>\<open>store\<close>, for byte \<open>i\<close> of the value: first the
  three-way branch on the page address, then the \<^verbatim>\<open>if conditions:\<close> that closes the
  loop body.
\<close>

definition store_tier ::
  "config \<Rightarrow> bvx \<Rightarrow> bvx \<Rightarrow> string \<Rightarrow> nat \<Rightarrow> (int list \<times> boolx list) \<times> memory \<times> world
   \<Rightarrow> (error + int list \<times> boolx list) \<times> memory \<times> world" where
  "store_tier cfg address val endness i st =
     (let page_addresses = fst (fst st); conditions = snd (fst st); m = fst (snd st); w = snd (snd st);
          sz = bv_size val;
          target =
            (if endness = ''little'' then BvAdd address (bvv (int i) (bv_size address))
             else BvSub (BvSub (BvAdd address (bvv (int (sz div 8)) (bv_size address)))
                               (bvv (int i) (bv_size address)))
                        (bvv 1 (bv_size address)));
          page_address = fst (split_bv target (index_bits m));
          page_index = snd (split_bv target (index_bits m));
          byte = Extract (8 * (i + 1) - 1) (8 * i) val
      in if \<not> symbolic page_address then
           (case bvv_to_long page_address of
              Inl e \<Rightarrow> (Inl e, m, w)
            | Inr pa \<Rightarrow>
                (case Memory_priv_store pa page_index byte None (m, w) of
                   (Inl e, mw') \<Rightarrow> (Inl e, mw')
                 | (Inr u, mw') \<Rightarrow> (Inr (List.insert pa page_addresses, conditions), mw')))
         else if \<not> solver_symbolic cfg (solver m) page_address then
           (let pa = solver_evaluate_long cfg (solver m) page_address in
            case Memory_priv_store pa page_index byte None (m, w) of
              (Inl e, mw') \<Rightarrow> (Inl e, mw')
            | (Inr u, mw') \<Rightarrow> (Inr (List.insert pa page_addresses, conditions), mw'))
         else
           store_sym_loop cfg (simplify page_address) (simplify page_index) byte
             (map fst (pages m)) ((page_addresses, []), m, w))"

definition store_byte ::
  "config \<Rightarrow> bvx \<Rightarrow> bvx \<Rightarrow> string \<Rightarrow> nat \<Rightarrow> (int list \<times> boolx list) \<times> memory \<times> world
   \<Rightarrow> (error + int list \<times> boolx list) \<times> memory \<times> world" where
  "store_byte cfg address val endness i st =
     (case store_tier cfg address val endness i st of
        (Inl e, mw') \<Rightarrow> (Inl e, mw')
      | (Inr (pas, conds), m', w') \<Rightarrow>
          (Inr (pas, conds),
           (if conds \<noteq> [] then add_constraints (simplify_bool (Or conds)) m' else m'), w'))"

fun store_loop ::
  "config \<Rightarrow> bvx \<Rightarrow> bvx \<Rightarrow> string \<Rightarrow> nat list \<Rightarrow> (int list \<times> boolx list) \<times> memory \<times> world
   \<Rightarrow> (error + int list \<times> boolx list) \<times> memory \<times> world" where
  "store_loop cfg address val endness [] (acc, mw) = (Inr acc, mw)"
| "store_loop cfg address val endness (i # is) st =
     (case store_byte cfg address val endness i st of
        (Inl e, mw') \<Rightarrow> (Inl e, mw')
      | (Inr acc, mw') \<Rightarrow> store_loop cfg address val endness is (acc, mw'))"

text \<open>The last loop of \<^verbatim>\<open>store\<close>: the byte store of every page touched is simplified.\<close>

fun simplify_pages :: "int list \<Rightarrow> memory \<times> world \<Rightarrow> (error + unit) \<times> memory \<times> world" where
  "simplify_pages [] mw = (Inr (), mw)"
| "simplify_pages (p # ps) (m, w) =
     (case map_of (pages m) p of
        None \<Rightarrow> (Inl KeyError, m, w)
      | Some r \<Rightarrow>
          simplify_pages ps (m, set_page r ((heap w r)\<lparr>mo := mo_simplify (mo (heap w r))\<rparr>) w))"

definition Memory_store ::
  "config \<Rightarrow> bvx \<Rightarrow> bvx \<Rightarrow> string \<Rightarrow> memory \<times> world \<Rightarrow> (error + unit) \<times> memory \<times> world" where
  "Memory_store cfg address val endness mw =
     (if bv_size address \<noteq> bits (fst mw) then (Inl AssertionError, mw)
      else
        case resolve_address cfg address (int (bv_size val)) mw of
          (Inl e, mw1) \<Rightarrow> (Inl e, mw1)
        | (Inr address', mw1) \<Rightarrow>
            if bv_size val mod 8 \<noteq> 0 then (Inl AssertionError, mw1)
            else
              (case store_loop cfg address' val endness (rev [0 ..< bv_size val div 8]) (([], []), mw1) of
                 (Inl e, mw2) \<Rightarrow> (Inl e, mw2)
               | (Inr (page_addresses, conds), mw2) \<Rightarrow> simplify_pages page_addresses mw2))"

text \<open>The symbolic tier of \<^verbatim>\<open>load\<close>: the loop over the keys of the page table.\<close>

fun load_sym_loop ::
  "config \<Rightarrow> bvx \<Rightarrow> bvx \<Rightarrow> int list \<Rightarrow> (bvx option \<times> boolx list) \<times> memory \<times> world
   \<Rightarrow> (error + bvx option \<times> boolx list) \<times> memory \<times> world" where
  "load_sym_loop cfg page_address page_index [] (acc, mw) = (Inr acc, mw)"
| "load_sym_loop cfg page_address page_index (p # ps) ((res, conditions), m, w) =
     (if solver_satisfiable cfg (solver m) [Eq page_address (bvv p (bv_size page_address))] then
        let condition = simplify_bool (Eq page_address (bvv p (bv_size page_address))) in
        (case Memory_priv_load p page_index (m, w) of
           (Inl e, mw') \<Rightarrow> (Inl e, mw')
         | (Inr b, mw') \<Rightarrow>
             load_sym_loop cfg page_address page_index ps
               (((case res of None \<Rightarrow> Some b | Some r \<Rightarrow> Some (IfBv condition b r)),
                 conditions @ [condition]), mw'))
      else load_sym_loop cfg page_address page_index ps ((res, conditions), m, w))"

definition concat_res :: "bvx option \<Rightarrow> bvx \<Rightarrow> bvx option" where
  "concat_res res tmp = (case res of None \<Rightarrow> Some tmp | Some r \<Rightarrow> Some (Concat r tmp))"

text \<open>One round of the byte loop of \<^verbatim>\<open>load\<close>, for offset \<open>i\<close>.\<close>

definition load_byte ::
  "config \<Rightarrow> bvx \<Rightarrow> nat \<Rightarrow> (bvx option \<times> boolx list) \<times> memory \<times> world
   \<Rightarrow> (error + bvx option \<times> boolx list) \<times> memory \<times> world" where
  "load_byte cfg address i st =
     (let res = fst (fst st); conditions = snd (fst st); m = fst (snd st); w = snd (snd st);
          target = BvAdd address (bvv (int i) (bv_size address));
          page_address = fst (split_bv target (index_bits m));
          page_index = snd (split_bv target (index_bits m))
      in if \<not> symbolic page_address then
           (case bvv_to_long page_address of
              Inl e \<Rightarrow> (Inl e, m, w)
            | Inr pa \<Rightarrow>
                (case Memory_priv_load pa page_index (m, w) of
                   (Inl e, mw') \<Rightarrow> (Inl e, mw')
                 | (Inr b, mw') \<Rightarrow> (Inr (concat_res res (simplify b), conditions), mw')))
         else if \<not> solver_symbolic cfg (solver m) page_address then
           (let pa = solver_evaluate_long cfg (solver m) page_address in
            case Memory_priv_load pa page_index (m, w) of
              (Inl e, mw') \<Rightarrow> (Inl e, mw')
            | (Inr b, mw') \<Rightarrow> (Inr (concat_res res (simplify b), conditions), mw'))
         else
           load_sym_loop cfg page_address page_index (map fst (pages m)) ((res, []), m, w))"

fun load_loop ::
  "config \<Rightarrow> bvx \<Rightarrow> nat list \<Rightarrow> (bvx option \<times> boolx list) \<times> memory \<times> world
   \<Rightarrow> (error + bvx option \<times> boolx list) \<times> memory \<times> world" where
  "load_loop cfg address [] (acc, mw) = (Inr acc, mw)"
| "load_loop cfg address (i # is) st =
     (case load_byte cfg address i st of
        (Inl e, mw') \<Rightarrow> (Inl e, mw')
      | (Inr acc, mw') \<Rightarrow> load_loop cfg address is (acc, mw'))"

text \<open>
  The block of \<^verbatim>\<open>load\<close> after the byte loop. Modelled from the spec: the forked
  state (\<^verbatim>\<open>State.copy\<close> is not among the sources) is the current path condition with
  one more constraint, reported with its tag.
\<close>

definition report_unmapped :: "boolx list \<Rightarrow> memory \<times> world \<Rightarrow> memory \<times> world" where
  "report_unmapped conditions mw =
     (if conditions \<noteq> [] then
        let m = fst mw; w = snd mw;
            errored_state = solver m @ [simplify_bool (Not (Or conditions))]
        in (add_constraints (simplify_bool (Or conditions)) m,
            w\<lparr>errored := errored w @ [(errored_state, ''read unmapped'')]\<rparr>)
      else mw)"

definition Memory_load ::
  "config \<Rightarrow> bvx \<Rightarrow> int \<Rightarrow> string \<Rightarrow> memory \<times> world \<Rightarrow> (error + bvx) \<times> memory \<times> world" where
  "Memory_load cfg address sz endness mw =
     (if bv_size address \<noteq> bits (fst mw) then (Inl AssertionError, mw)
      else
        case resolve_address cfg address sz mw of
          (Inl e, mw1) \<Rightarrow> (Inl e, mw1)
        | (Inr address', mw1) \<Rightarrow>
            let ran = (if endness = ''little'' then rev [0 ..< nat sz] else [0 ..< nat sz]) in
            (case load_loop cfg address' ran ((None, []), mw1) of
               (Inl e, mw2) \<Rightarrow> (Inl e, mw2)
             | (Inr (res, conditions), mw2) \<Rightarrow>
                 let mw3 = report_unmapped conditions mw2 in
                 (case res of
                    None \<Rightarrow> (Inl AttributeError, mw3)
                  | Some r \<Rightarrow>
                      if int (bv_size r div 8) \<noteq> sz then (Inl AssertionError, mw3)
                      else (Inr (simplify r), mw3))))"


section \<open>Example states\<close>

text \<open>
  A small address space: 8-bit addresses and 16-byte pages, so 16 page slots and
  \<open>last_page = 12\<close>.
\<close>

definition gap_memory :: memory where
  "gap_memory =
     \<lparr>bits = 8,
      pages = [(0, 0), (1, 1), (2, 2), (3, 3), (4, 4), (8, 5), (9, 6), (10, 7),
               (11, 8), (12, 9), (13, 10), (14, 11), (15, 12)],
      page_size = 16, index_bits = 4, solver = []\<rparr>"

definition fwd_memory :: memory where
  "fwd_memory = \<lparr>bits = 8, pages = [(3, 0), (4, 1)], page_size = 16, index_bits = 4, solver = []\<rparr>"

text \<open>The page-address term of byte \<open>i\<close> of a \<^verbatim>\<open>load\<close>, as the byte loop computes it.\<close>

definition load_page_address :: "memory \<Rightarrow> bvx \<Rightarrow> nat \<Rightarrow> bvx" where
  "load_page_address m address i =
     fst (split_bv (BvAdd address (bvv (int i) (bv_size address))) (index_bits m))"

definition unsat_cfg :: config where
  "unsat_cfg = \<lparr>HEURISTIC_UNCONSTRAINED_MEM_ACCESS = False,
     solver_symbolic = (\<lambda>cs e. True), solver_evaluate_long = (\<lambda>cs e. 0),
     solver_satisfiable = (\<lambda>cs ex. False), solver_is_unconstrained = (\<lambda>cs e. False)\<rparr>"

definition two_memory :: memory where
  "two_memory = \<lparr>bits = 8, pages = [(1, 0), (2, 1)], page_size = 16, index_bits = 4, solver = []\<rparr>"

definition two_world :: world where
  "two_world = \<lparr>heap = (\<lambda>r. Page (int r + 1) 16 4 None), next_ref = 2, errored = []\<rparr>"

text \<open>
  Two mapped pages, slots 1 and 2 (bases 16 and 32), and a symbolic address \<open>a\<close>
  whose only constraint is \<open>a = 16 \<or> a = 32\<close>. Under it the page address of \<open>a\<close> and of
  \<open>a + 1\<close> has two values, 1 and 2, and both are satisfiable: \<open>amb_cfg\<close> answers so.
  \<open>env_page2\<close> is the assignment \<open>a = 32\<close> with zero-filled arrays.
\<close>

definition amb_cfg :: config where
  "amb_cfg = \<lparr>HEURISTIC_UNCONSTRAINED_MEM_ACCESS = True,
     solver_symbolic = (\<lambda>cs e. True), solver_evaluate_long = (\<lambda>cs e. 0),
     solver_satisfiable = (\<lambda>cs ex. True), solver_is_unconstrained = (\<lambda>cs e. False)\<rparr>"

definition amb_constraint :: boolx where
  "amb_constraint = Or [Eq (BitVec ''a'' 8) (BitVecVal 16 8), Eq (BitVec ''a'' 8) (BitVecVal 32 8)]"

definition amb_memory :: memory where
  "amb_memory = \<lparr>bits = 8, pages = [(1, 0), (2, 1)], page_size = 16, index_bits = 4,
                  solver = [amb_constraint]\<rparr>"

definition env_page2 :: env where
  "env_page2 = \<lparr>bv_var = (\<lambda>x. 32), arr_var = (\<lambda>n i. 0)\<rparr>"

definition store_target :: bvx where
  "store_target = BvSub (BvSub (BvAdd (BitVec ''a'' 8) (BitVecVal 1 8)) (BitVecVal 0 8)) (BitVecVal 1 8)"

definition load_target :: bvx where
  "load_target = BvAdd (BitVec ''a'' 8) (BitVecVal 0 8)"

text \<open>
  The page-table invariant: every entry refers to an allocated page whose \<open>addr\<close> is
  the key. \<open>ext w w'\<close>: the world \<open>w'\<close> keeps every page of \<open>w\<close> at its address.
\<close>

definition table_ok :: "memory \<Rightarrow> world \<Rightarrow> bool" where
  "table_ok m w = (\<forall>kr \<in> set (pages m). snd kr < next_ref w \<and> addr (heap w (snd kr)) = fst kr)"

definition ext :: "world \<Rightarrow> world \<Rightarrow> bool" where
  "ext w w' = (next_ref w \<le> next_ref w' \<and> (\<forall>r < next_ref w. addr (heap w' r) = addr (heap w r)))"

definition pres :: "memory \<times> world \<Rightarrow> memory \<times> world \<Rightarrow> bool" where
  "pres mw mw' = (ext (snd mw) (snd mw') \<and> (table_ok (fst mw) (snd mw) \<longrightarrow> table_ok (fst mw') (snd mw')))"

text \<open>
  A system is the list of the memories created so far and the world they share. An
  operation names its memory by position; \<open>OpNew\<close> is the constructor and \<open>OpCopy\<close>
  adds the copy to the list. An operation that raises keeps what it did before.
\<close>

datatype op =
    OpNew nat int nat "boolx list"
  | OpMmap nat int int "InitData option"
  | OpStore nat bvx bvx string
  | OpLoad nat bvx int string
  | OpCopy nat "boolx list"

fun step :: "config \<Rightarrow> op \<Rightarrow> memory list \<times> world \<Rightarrow> memory list \<times> world" where
  "step cfg (OpNew b ps ib st) (ms, w) =
     (ms @ [\<lparr>bits = b, pages = [], page_size = ps, index_bits = ib, solver = st\<rparr>], w)"
| "step cfg (OpMmap i address sz ini) (ms, w) =
     (if i < length ms then
        (case Memory_mmap address sz ini (ms ! i, w) of (r, m', w') \<Rightarrow> (ms[i := m'], w'))
      else (ms, w))"
| "step cfg (OpStore i address val endness) (ms, w) =
     (if i < length ms then
        (case Memory_store cfg address val endness (ms ! i, w) of (r, m', w') \<Rightarrow> (ms[i := m'], w'))
      else (ms, w))"
| "step cfg (OpLoad i address sz endness) (ms, w) =
     (if i < length ms then
        (case Memory_load cfg address sz endness (ms ! i, w) of (r, m', w') \<Rightarrow> (ms[i := m'], w'))
      else (ms, w))"
| "step cfg (OpCopy i st) (ms, w) =
     (if i < length ms then
        (case Memory_copy st (ms ! i, w) of (m2, w') \<Rightarrow> (ms @ [m2], w'))
      else (ms, w))"

fun run :: "config \<Rightarrow> op list \<Rightarrow> memory list \<times> world \<Rightarrow> memory list \<times> world" where
  "run cfg [] s = s"
| "run cfg (x # xs) s = run cfg xs (step cfg x s)"

definition system_ok :: "memory list \<times> world \<Rightarrow> bool" where
  "system_ok s = (\<forall>m \<in> set (fst s). table_ok m (snd s))"

definition empty_memory :: memory where
  "empty_memory = \<lparr>bits = 8, pages = [], page_size = 16, index_bits = 4, solver = []\<rparr>"

definition empty_world :: world where
  "empty_world = \<lparr>heap = (\<lambda>r. Page 0 0 0 None), next_ref = 0, errored = []\<rparr>"

definition mapped_state :: "memory \<times> world" where
  "mapped_state = snd (Memory_mmap 16 32 None (empty_memory, empty_world))"

definition example_ops :: "op list" where
  "example_ops =
     [OpNew 8 16 4 [],
      OpMmap 0 16 32 (Some ([1, 2, 3], 5)),
      OpStore 0 (BitVecVal 30 8) (BitVec ''v'' 24) ''big'',
      OpCopy 0 [],
      OpStore 1 (BitVecVal 17 8) (BitVecVal 9 8) ''little'',
      OpLoad 0 (BitVec ''a'' 8) 1 ''big'',
      OpMmap 1 48 16 None]"

definition table_view :: "memory list \<times> world \<Rightarrow> (int \<times> nat \<times> int) list list" where
  "table_view s = map (\<lambda>m. map (\<lambda>kr. (fst kr, snd kr, addr (heap (snd s) (snd kr)))) (pages m)) (fst s)"

text \<open>
  The init data that the loop of \<^verbatim>\<open>mmap\<close> hands to the next \<open>k\<close> pages it creates,
  from the loop state \<open>(init_index, data_index_i, data_index_f)\<close>.
\<close>

fun loop_inits :: "int list \<Rightarrow> int \<Rightarrow> int \<Rightarrow> int \<Rightarrow> int \<Rightarrow> nat \<Rightarrow> InitData list" where
  "loop_inits blob ps ix di df 0 = []"
| "loop_inits blob ps ix di df (Suc k) = (py_slice blob di df, ix) # loop_inits blob ps 0 df (df + ps) k"

text \<open>
  The slicing in the words of the specification: the first page receives the start
  offset and the bytes that fit above it; each subsequent page receives the next
  page-sized slice at offset 0.
\<close>

fun chunks :: "nat \<Rightarrow> 'a list \<Rightarrow> nat \<Rightarrow> 'a list list" where
  "chunks n xs 0 = []"
| "chunks n xs (Suc k) = take n xs # chunks n (drop n xs) k"

definition spec_init_data :: "int list \<Rightarrow> int \<Rightarrow> int \<Rightarrow> nat \<Rightarrow> InitData list" where
  "spec_init_data blob ps idx k =
     (case k of
        0 \<Rightarrow> []
      | Suc k' \<Rightarrow>
          (take (nat (ps - idx)) blob, idx)
          # map (\<lambda>c. (c, 0)) (chunks (nat ps) (drop (nat (ps - idx)) blob) k'))"

definition created_slots :: "memory \<Rightarrow> int list \<Rightarrow> int list" where
  "created_slots m slots = filter (\<lambda>a. \<not> has_page m a) slots"

definition page_at :: "memory \<times> world \<Rightarrow> int \<Rightarrow> page option" where
  "page_at mw a = map_option (heap (snd mw)) (map_of (pages (fst mw)) a)"

text \<open>The slots of \<^verbatim>\<open>[address, address + size)\<close>, as the \<^verbatim>\<open>range\<close> of \<^verbatim>\<open>mmap\<close> lists them.\<close>

definition region_slots :: "memory \<Rightarrow> int \<Rightarrow> int \<Rightarrow> int list" where
  "region_slots m address sz =
     [address div page_size m .. address div page_size m + sz div page_size m - 1]"

definition blob20 :: "int list" where
  "blob20 = [1, 2, 3, 4, 5, 6, 7, 8, 9, 10, 11, 12, 13, 14, 15, 16, 17, 18, 19, 20]"

definition remap_memory :: memory where
  "remap_memory = \<lparr>bits = 8, pages = [(1, 0)], page_size = 16, index_bits = 4, solver = []\<rparr>"

text \<open>
  What a page holds once its pending init data is written: \<open>page_view\<close> is the byte
  store that \<^verbatim>\<open>lazy_init\<close> leaves, \<open>page_fits\<close> the assertion it makes.
\<close>

definition page_view :: "page \<Rightarrow> arrx" where
  "page_view p =
     (case init_p p of
        None \<Rightarrow> mo p
      | Some (val, index) \<Rightarrow> init_bytes (bvv index (bits_p p)) val 0 (mo p))"

definition page_fits :: "page \<Rightarrow> bool" where
  "page_fits p =
     (case init_p p of
        None \<Rightarrow> True
      | Some (val, index) \<Rightarrow> int (length val) + index \<le> size_p p)"

definition inited :: "page \<Rightarrow> page" where
  "inited p = p\<lparr>mo := page_view p, init_p := None\<rparr>"

text \<open>The page that the copy-on-write branch of \<^verbatim>\<open>Page.store\<close> builds and writes.\<close>

definition cow_page :: "page \<Rightarrow> bvx \<Rightarrow> bvx \<Rightarrow> page" where
  "cow_page p index val =
     \<lparr>addr = addr p, size_p = size_p p, bits_p = bits_p p,
      mo = Store (page_view p) index val, init_p = None, lazycopy = False\<rparr>"

text \<open>
  Two memories over one world. \<open>refs\<close> are the page objects of a table. \<open>sep other m w\<close>:
  both tables are well formed, the keys of \<open>m\<close> are distinct (it is a dict), and
  every page object the two tables share is marked for copy on write.
  \<open>frame other w w'\<close>: the pages of \<open>other\<close> hold in \<open>w'\<close> what they held in \<open>w\<close>.
\<close>

definition refs :: "memory \<Rightarrow> nat set" where
  "refs m = snd ` set (pages m)"

definition sep :: "memory \<Rightarrow> memory \<Rightarrow> world \<Rightarrow> bool" where
  "sep other m w =
     (table_ok m w \<and> table_ok other w \<and> distinct (map fst (pages m))
      \<and> (\<forall>r \<in> refs m \<inter> refs other. lazycopy (heap w r)))"

definition frame :: "memory \<Rightarrow> world \<Rightarrow> world \<Rightarrow> bool" where
  "frame other w w' =
     (\<forall>r \<in> refs other. page_view (heap w' r) = page_view (heap w r)
                     \<and> page_fits (heap w' r) = page_fits (heap w r))"

definition keeps :: "memory \<Rightarrow> memory \<times> world \<Rightarrow> memory \<times> world \<Rightarrow> bool" where
  "keeps other mw mw' =
     (sep other (fst mw) (snd mw) \<longrightarrow>
        sep other (fst mw') (snd mw') \<and> frame other (snd mw) (snd mw'))"

text \<open>
  The copy of \<open>two_memory\<close>, a store of 7 at address 17 into the copy, and then a store
  of 9 at address 17 into the original.
\<close>

definition cow_copy :: "memory \<times> world" where
  "cow_copy = Memory_copy [] (two_memory, two_world)"

definition cow_store2 :: "(error + unit) \<times> memory \<times> world" where
  "cow_store2 = Memory_store amb_cfg (BitVecVal 17 8) (BitVecVal 7 8) ''big'' cow_copy"

definition cow_store1 :: "(error + unit) \<times> memory \<times> world" where
  "cow_store1 =
     Memory_store amb_cfg (BitVecVal 17 8) (BitVecVal 9 8) ''big'' (two_memory, snd (snd cow_store2))"



definition offset_of :: "memory \<Rightarrow> int \<Rightarrow> int" where
  "offset_of m A = A mod 2 ^ index_bits m"




text \<open>
  Two copies of \<open>two_memory\<close>, then a store of 7 at address 17 into the first copy and
  a store of 9 at address 17 into the second copy.
\<close>

definition cow_copy3 :: "memory \<times> world" where
  "cow_copy3 = Memory_copy [] (two_memory, snd cow_copy)"

definition share_store2 :: "(error + unit) \<times> memory \<times> world" where
  "share_store2 =
     Memory_store amb_cfg (BitVecVal 17 8) (BitVecVal 7 8) ''big'' (fst cow_copy, snd cow_copy3)"

definition share_store3 :: "(error + unit) \<times> memory \<times> world" where
  "share_store3 =
     Memory_store amb_cfg (BitVecVal 17 8) (BitVecVal 9 8) ''big'' (fst cow_copy3, snd (snd share_store2))"










section \<open>The unmapped-region search\<close>

lemma get_unmapped_loop_slot2:
  "\<not> has_page m 2 \<Longrightarrow> get_unmapped_loop m sz False last_page 2 j count = 2"
proof (induction "nat (last_page + 1 - j)" arbitrary: j count)
  case 0
  then show ?case by (subst get_unmapped_loop.simps) simp
next
  case (Suc n)
  show ?case
  proof (cases "j \<le> last_page \<and> count \<noteq> sz")
    case True
    have "get_unmapped_loop m sz False last_page 2 j count =
          get_unmapped_loop m sz False last_page 2 (j + 1) (count + 1)"
      using True Suc.prems by (subst get_unmapped_loop.simps) simp
    also have "\<dots> = 2"
      using Suc.hyps(1) [of "j + 1" "count + 1"] Suc.hyps(2) Suc.prems by simp
    finally show ?thesis .
  next
    case False
    then show ?thesis by (subst get_unmapped_loop.simps) auto
  qed
qed

text \<open>
  C10. When slot 2 is not in the page table, \<^verbatim>\<open>get_unmapped(size, from_end=False)\<close>
  returns 2 for every size, in particular for every size between 1 and the scan
  bound, whatever the state of the slots above 2: the forward scan tests its
  candidate slot only.
\<close>

theorem get_unmapped_forward_slot2_free:
  "\<not> has_page m 2 \<Longrightarrow> Memory_get_unmapped m sz False = 2"
  by (simp add: Memory_get_unmapped_def get_unmapped_loop_slot2)

theorem get_unmapped_forward_slot2_free_witness:
  "\<not> has_page fwd_memory 2 \<and> has_page fwd_memory 3 \<and> has_page fwd_memory 4
   \<and> Memory_get_unmapped fwd_memory 3 False = 2"
  using get_unmapped_forward_slot2_free [of fwd_memory 3]
  by (simp add: fwd_memory_def has_page_def)

text \<open>
  C7. In \<open>gap_memory\<close> every slot is mapped except 5, 6 and 7.
  \<^verbatim>\<open>get_unmapped(3, from_end=True)\<close> returns 4, the mapped slot below the gap, and
  not 5, the slot at which the gap starts.
\<close>

theorem get_unmapped_from_end_gap:
  "Memory_get_unmapped gap_memory 3 True = 4
   \<and> has_page gap_memory 4 \<and> \<not> has_page gap_memory 5 \<and> \<not> has_page gap_memory 6
   \<and> \<not> has_page gap_memory 7 \<and> has_page gap_memory 8"
  by code_simp

section \<open>Loads that no page can serve\<close>

lemma load_sym_loop_unsat:
  "\<forall>p\<in>set ks. \<not> solver_satisfiable cfg (solver m) [Eq pa (bvv p (bv_size pa))] \<Longrightarrow>
   load_sym_loop cfg pa pi ks ((res, conds), m, w) = (Inr (res, conds), m, w)"
  by (induction ks) simp_all

lemma load_byte_unsat:
  assumes "symbolic (load_page_address m address i)"
    and "solver_symbolic cfg (solver m) (load_page_address m address i)"
    and "\<forall>p\<in>set (map fst (pages m)). \<not> solver_satisfiable cfg (solver m)
           [Eq (load_page_address m address i) (bvv p (bv_size (load_page_address m address i)))]"
  shows "load_byte cfg address i ((res, conds), m, w) = (Inr (res, []), m, w)"
  using assms load_sym_loop_unsat [of "map fst (pages m)" cfg m "load_page_address m address i" _ res "[]" w]
  by (simp add: load_byte_def load_page_address_def Let_def)

lemma load_loop_unsat:
  assumes "\<forall>i\<in>set is. symbolic (load_page_address m address i)
             \<and> solver_symbolic cfg (solver m) (load_page_address m address i)
             \<and> (\<forall>p\<in>set (map fst (pages m)). \<not> solver_satisfiable cfg (solver m)
                  [Eq (load_page_address m address i) (bvv p (bv_size (load_page_address m address i)))])"
  shows "load_loop cfg address is ((None, []), m, w) = (Inr (None, []), m, w)"
  using assms by (induction "is") (simp_all add: load_byte_unsat)

text \<open>
  C9. When the heuristic does not fire, every byte of a \<^verbatim>\<open>load\<close> takes the symbolic
  tier and no mapped page is satisfiable for it, the call fails with a fatal error:
  the accumulator is still \<^verbatim>\<open>None\<close> at the width check, so \<^verbatim>\<open>res.size()\<close> raises. The
  memory and the world are those of the call, so no errored state has been reported
  and no constraint added.
\<close>

theorem load_unsatisfiable_fails:
  assumes "bv_size address = bits m"
    and "heuristic_fires cfg m address = Inr False"
    and "\<forall>i<nat sz. symbolic (load_page_address m address i)
             \<and> solver_symbolic cfg (solver m) (load_page_address m address i)
             \<and> (\<forall>p\<in>set (map fst (pages m)). \<not> solver_satisfiable cfg (solver m)
                  [Eq (load_page_address m address i) (bvv p (bv_size (load_page_address m address i)))])"
  shows "Memory_load cfg address sz endness (m, w) = (Inl AttributeError, m, w)"
proof -
  have "load_loop cfg address is ((None, []), m, w) = (Inr (None, []), m, w)"
    if "set is \<subseteq> {0 ..< nat sz}" for "is"
  proof (rule load_loop_unsat, rule ballI)
    fix i assume "i \<in> set is"
    with that have "i < nat sz" by auto
    with assms(3) show "symbolic (load_page_address m address i)
             \<and> solver_symbolic cfg (solver m) (load_page_address m address i)
             \<and> (\<forall>p\<in>set (map fst (pages m)). \<not> solver_satisfiable cfg (solver m)
                  [Eq (load_page_address m address i) (bvv p (bv_size (load_page_address m address i)))])"
      by blast
  qed
  then show ?thesis
    using assms(1,2) by (simp add: Memory_load_def resolve_address_def report_unmapped_def)
qed

theorem load_unsatisfiable_fails_witness:
  "bv_size (BitVec ''a'' 8) = bits two_memory
   \<and> heuristic_fires unsat_cfg two_memory (BitVec ''a'' 8) = Inr False
   \<and> symbolic (load_page_address two_memory (BitVec ''a'' 8) 0)
   \<and> symbolic (load_page_address two_memory (BitVec ''a'' 8) 1)
   \<and> Memory_load unsat_cfg (BitVec ''a'' 8) 2 ''big'' (two_memory, two_world)
       = (Inl AttributeError, two_memory, two_world)"
proof -
  have h: "heuristic_fires unsat_cfg two_memory (BitVec ''a'' 8) = Inr False"
    by (simp add: heuristic_fires_def unsat_cfg_def)
  have s: "symbolic (load_page_address two_memory (BitVec ''a'' 8) i)" for i
    by (simp add: load_page_address_def split_bv_def simplify_def symbolic_def)
  show ?thesis
    using load_unsatisfiable_fails [of "BitVec ''a'' 8" two_memory unsat_cfg 2 "''big''" two_world] h s
    by (simp add: two_memory_def unsat_cfg_def)
qed

section \<open>Symbolic accesses over two pages\<close>

text \<open>
  C4. A two-byte \<^verbatim>\<open>load\<close> at the ambiguous address returns no value: each byte of the
  symbolic tier wraps the result so far in an \<^verbatim>\<open>If\<close> instead of concatenating, the
  result is 8 bits wide and the width check fails. The one-byte \<^verbatim>\<open>load\<close> at the same
  address returns the conditional value, reports one errored state and adds the
  disjunction.
\<close>

theorem load_ambiguous_two_bytes:
  "fst (Memory_load amb_cfg (BitVec ''a'' 8) 2 ''big'' (amb_memory, two_world)) = Inl AssertionError
   \<and> fst (Memory_load amb_cfg (BitVec ''a'' 8) 2 ''little'' (amb_memory, two_world)) = Inl AssertionError
   \<and> (case Memory_load amb_cfg (BitVec ''a'' 8) 1 ''big'' (amb_memory, two_world) of
        (r, m', w') \<Rightarrow>
          r = Inr (IfBv (Eq (Extract 7 4 load_target) (BitVecVal 2 4))
                     (Select (Array 2 4) (Extract 3 0 load_target))
                     (Select (Array 1 4) (Extract 3 0 load_target)))
          \<and> errored w' =
              [([amb_constraint,
                 boolx.Not (Or [Eq (Extract 7 4 load_target) (BitVecVal 1 4),
                                Eq (Extract 7 4 load_target) (BitVecVal 2 4)])], ''read unmapped'')]
          \<and> solver m' =
              [amb_constraint,
               Or [Eq (Extract 7 4 load_target) (BitVecVal 1 4),
                   Eq (Extract 7 4 load_target) (BitVecVal 2 4)]])"
  by code_simp

text \<open>
  C3. A one-byte \<^verbatim>\<open>store\<close> of 7 at the ambiguous address writes both pages without the
  guard. Under \<open>a = 32\<close>, which satisfies the path constraints, the equality for page 1
  is false, and yet offset 0 of page 1, which held 0, holds 7.
\<close>

theorem store_ambiguous_unguarded:
  "(case Memory_store amb_cfg (BitVec ''a'' 8) (BitVecVal 7 8) ''big'' (amb_memory, two_world) of
      (r, m', w') \<Rightarrow>
        r = Inr ()
        \<and> map_of (pages m') 1 = Some 0
        \<and> mo (heap w' 0) = Store (Array 1 4) (Extract 3 0 store_target) (Extract 7 0 (BitVecVal 7 8))
        \<and> solver m' =
            [amb_constraint,
             Or [Eq (Extract 7 4 store_target) (BitVecVal 1 4),
                 Eq (Extract 7 4 store_target) (BitVecVal 2 4)]]
        \<and> list_all (bool_eval env_page2) (solver m')
        \<and> \<not> bool_eval env_page2 (Eq (Extract 7 4 store_target) (BitVecVal 1 4))
        \<and> bv_eval env_page2 (mo_load (mo (heap w' 0)) (BitVecVal 0 4)) = 7)
   \<and> map_of (pages amb_memory) 1 = Some 0
   \<and> bv_eval env_page2 (mo_load (mo (heap two_world 0)) (BitVecVal 0 4)) = 0"
  by code_simp

section \<open>Copying a memory\<close>

lemma update_fresh_key: "k \<notin> fst ` set al \<Longrightarrow> AList.update k v al = al @ [(k, v)]"
  by (induction al) auto

lemma copy_loop_pages:
  "distinct (map fst (np @ ps)) \<Longrightarrow> fst (copy_loop ps (np, w)) = np @ ps"
proof (induction ps arbitrary: np w)
  case Nil
  then show ?case by simp
next
  case (Cons a ps)
  obtain k r where a: "a = (k, r)" by (cases a)
  have fresh: "k \<notin> fst ` set np" using Cons.prems a by auto
  have "distinct (map fst ((np @ [(k, r)]) @ ps))" using Cons.prems a by auto
  from Cons.IH [OF this] show ?case
    using a fresh by (simp add: Page_copy_def update_fresh_key)
qed

lemma copy_loop_heap:
  "heap (snd (copy_loop ps (np, w))) r =
     (if r \<in> snd ` set ps then (heap w r)\<lparr>lazycopy := True\<rparr> else heap w r)"
proof (induction ps arbitrary: np w)
  case Nil
  then show ?case by simp
next
  case (Cons a ps)
  obtain k r' where a: "a = (k, r')" by (cases a)
  show ?case
    using a by (auto simp: Cons.IH Page_copy_def set_page_def image_iff)
qed

lemma copy_loop_rest:
  "next_ref (snd (copy_loop ps (np, w))) = next_ref w \<and> errored (snd (copy_loop ps (np, w))) = errored w"
proof (induction ps arbitrary: np w)
  case Nil
  then show ?case by simp
next
  case (Cons a ps)
  obtain k r' where a: "a = (k, r')" by (cases a)
  show ?case using a by (simp add: Cons.IH Page_copy_def set_page_def)
qed

text \<open>
  C6, as the code has it. \<^verbatim>\<open>Page.copy\<close> returns \<^verbatim>\<open>self\<close>: the copy has a table of its own
  with the keys of the source, and every entry is the page object of the source,
  now marked for copy on write. No page is allocated by the copy.
\<close>

theorem copy_shares_pages:
  assumes "distinct (map fst (pages m))"
    and "Memory_copy st (m, w) = (m2, w')"
  shows "pages m2 = pages m \<and> next_ref w' = next_ref w
         \<and> (\<forall>kr \<in> set (pages m). heap w' (snd kr) = (heap w (snd kr))\<lparr>lazycopy := True\<rparr>)
         \<and> (\<forall>r. r \<notin> snd ` set (pages m) \<longrightarrow> heap w' r = heap w r)
         \<and> bits m2 = bits m \<and> page_size m2 = page_size m \<and> index_bits m2 = index_bits m
         \<and> solver m2 = st"
proof -
  obtain np w1 where c: "copy_loop (pages m) ([], w) = (np, w1)" by (cases "copy_loop (pages m) ([], w)")
  have np: "np = pages m" using copy_loop_pages [of "[]" "pages m" w] assms(1) c by simp
  have h: "heap w1 r = (if r \<in> snd ` set (pages m) then (heap w r)\<lparr>lazycopy := True\<rparr> else heap w r)" for r
    using copy_loop_heap [of "pages m" "[]" w r] c by simp
  have n: "next_ref w1 = next_ref w" using copy_loop_rest [of "pages m" "[]" w] c by simp
  have m2: "m2 = \<lparr>bits = bits m, pages = np, page_size = page_size m, index_bits = index_bits m, solver = st\<rparr>"
    and w': "w' = w1"
    using assms(2) c by (simp_all add: Memory_copy_def)
  show ?thesis using np h n by (simp add: m2 w')
qed

theorem copy_shares_pages_witness:
  "distinct (map fst (pages two_memory))
   \<and> pages (fst (Memory_copy [] (two_memory, two_world))) = [(1, 0), (2, 1)]
   \<and> pages two_memory = [(1, 0), (2, 1)]
   \<and> lazycopy (heap (snd (Memory_copy [] (two_memory, two_world))) 0)
   \<and> \<not> lazycopy (heap two_world 0)"
  using copy_shares_pages [of two_memory "[]" two_world
          "fst (Memory_copy [] (two_memory, two_world))" "snd (Memory_copy [] (two_memory, two_world))"]
  by (simp add: two_memory_def two_world_def Page_def)

theorem copy_page_objects_shared:
  "map snd (pages (fst (Memory_copy [] (two_memory, two_world)))) = map snd (pages two_memory)
   \<and> map snd (pages two_memory) = [0, 1]
   \<and> next_ref (snd (Memory_copy [] (two_memory, two_world))) = next_ref two_world"
  by code_simp

section \<open>The page-table invariant\<close>

lemma ext_refl: "ext w w"
  by (simp add: ext_def)

lemma ext_trans: "ext w w1 \<Longrightarrow> ext w1 w2 \<Longrightarrow> ext w w2"
  by (auto simp: ext_def)

lemma pres_refl: "pres mw mw"
  by (simp add: pres_def ext_refl)

lemma pres_trans: "pres mw mw1 \<Longrightarrow> pres mw1 mw2 \<Longrightarrow> pres mw mw2"
  by (auto simp: pres_def intro: ext_trans)

lemma table_ok_ext: "table_ok m w \<Longrightarrow> ext w w' \<Longrightarrow> table_ok m w'"
  by (fastforce simp: table_ok_def ext_def)

lemma ext_set_page: "addr p = addr (heap w r) \<Longrightarrow> ext w (set_page r p w)"
  by (simp add: ext_def set_page_def)

lemma ext_alloc: "ext w (snd (alloc p w))"
  by (simp add: ext_def alloc_def)

lemma ext_lazy_init: "ext w (snd (Page_lazy_init r w))"
  by (auto simp: Page_lazy_init_def Let_def ext_refl ext_set_page split: option.splits)

lemma ext_Page_load: "ext w (snd (Page_load r index w))"
  using ext_lazy_init [of w r]
  by (auto simp: Page_load_def split: prod.splits sum.splits)

lemma ext_Page_store_own:
  "Page_store_own r index val w = (res, w') \<Longrightarrow>
   ext w w' \<and> (\<forall>r'. res = Inr r' \<longrightarrow> r' = r)"
  using ext_lazy_init [of w r]
  by (auto simp: Page_store_own_def split: prod.splits sum.splits
           intro!: ext_trans [OF _ ext_set_page])

lemma Page_store_ok:
  assumes "Page_store r index val condition w = (res, w')"
  shows "ext w w' \<and> (\<forall>r'. res = Inr r' \<longrightarrow> r < next_ref w \<longrightarrow>
                          r' < next_ref w' \<and> addr (heap w' r') = addr (heap w r))"
proof -
  obtain u w1 where li: "Page_lazy_init r w = (u, w1)" by (cases "Page_lazy_init r w")
  have e1: "ext w w1" using ext_lazy_init [of w r] li by simp
  have a1: "r < next_ref w \<Longrightarrow> addr (heap w1 r) = addr (heap w r) \<and> r < next_ref w1"
    using e1 by (auto simp: ext_def)
  show ?thesis
  proof (cases u)
    case (Inl e)
    then show ?thesis using assms(1) li e1 by (auto simp: Page_store_def)
  next
    case (Inr x)
    show ?thesis
    proof (cases "lazycopy (heap w1 r)")
      case False
      then have "res = Inr r" and w': "w' = set_page r ((heap w1 r)\<lparr>mo := mo_store (mo (heap w1 r)) index val\<rparr>) w1"
        using assms(1) li Inr by (simp_all add: Page_store_def)
      moreover have "ext w1 w'" unfolding w' by (rule ext_set_page) simp
      ultimately show ?thesis using e1 a1 by (auto intro: ext_trans simp: set_page_def ext_def)
    next
      case True
      define w2 where "w2 = set_page r ((heap w1 r)\<lparr>lazycopy := False\<rparr>) w1"
      define np where "np = (Page (addr (heap w2 r)) (size_p (heap w2 r)) (bits_p (heap w2 r)) None)\<lparr>mo := mo_copy (mo (heap w2 r))\<rparr>"
      define w3 where "w3 = snd (alloc np w2)"
      have e2: "ext w1 w2" unfolding w2_def by (rule ext_set_page) simp
      have e3: "ext w2 w3" unfolding w3_def by (rule ext_alloc)
      have so: "Page_store_own (next_ref w2) index val w3 = (res, w')"
        using assms(1) li Inr True
        by (simp add: Page_store_def Let_def w2_def np_def w3_def alloc_def)
      from ext_Page_store_own [OF so] have e4: "ext w3 w'" and r': "\<forall>r'. res = Inr r' \<longrightarrow> r' = next_ref w2" by auto
      have e: "ext w w'" using e1 e2 e3 e4 by (blast intro: ext_trans)
      have "next_ref w3 = Suc (next_ref w2)" and "addr (heap w3 (next_ref w2)) = addr (heap w2 r)"
        by (simp_all add: w3_def alloc_def np_def Page_def)
      moreover have "addr (heap w2 r) = addr (heap w1 r)" by (simp add: w2_def set_page_def)
      ultimately have "next_ref w2 < next_ref w'"
        and "r < next_ref w \<Longrightarrow> addr (heap w' (next_ref w2)) = addr (heap w r)"
        using e4 a1 by (auto simp: ext_def)
      then show ?thesis using e r' by auto
    qed
  qed
qed

lemma table_ok_update:
  "table_ok m w \<Longrightarrow> r < next_ref w \<Longrightarrow> addr (heap w r) = k \<Longrightarrow>
   table_ok (m\<lparr>pages := AList.update k r (pages m)\<rparr>) w"
proof -
  assume a: "table_ok m w" "r < next_ref w" "addr (heap w r) = k"
  have "set (AList.update k r al) \<subseteq> set al \<union> {(k, r)}" for al :: "(int \<times> nat) list"
    by (induction al) auto
  then show ?thesis using a by (fastforce simp: table_ok_def)
qed

lemma pres_priv_store:
  "Memory_priv_store pa pi val cond mw = (res, mw') \<Longrightarrow> pres mw mw'"
proof -
  assume a: "Memory_priv_store pa pi val cond mw = (res, mw')"
  obtain m w where mw: "mw = (m, w)" by (cases mw)
  show ?thesis
  proof (cases "map_of (pages m) pa")
    case None
    then show ?thesis using a mw by (simp add: Memory_priv_store_def pres_refl)
  next
    case (Some r)
    show ?thesis
    proof (cases "bv_size val \<noteq> 8")
      case True
      then show ?thesis using a mw Some by (simp add: Memory_priv_store_def pres_refl)
    next
      case False
      obtain ps w' where s: "Page_store r pi val cond w = (ps, w')" by (cases "Page_store r pi val cond w")
      have mem: "(pa, r) \<in> set (pages m)" using Some by (rule map_of_SomeD)
      from Page_store_ok [OF s] have e: "ext w w'"
        and rr: "\<And>r'. ps = Inr r' \<Longrightarrow> r < next_ref w \<Longrightarrow> r' < next_ref w' \<and> addr (heap w' r') = addr (heap w r)"
        by auto
      show ?thesis
      proof (cases ps)
        case (Inl e')
        have "mw' = (m, w')" using a mw Some False s Inl by (simp add: Memory_priv_store_def)
        then show ?thesis using mw e by (auto simp: pres_def intro: table_ok_ext)
      next
        case (Inr r')
        have mw': "mw' = (m\<lparr>pages := AList.update pa r' (pages m)\<rparr>, w')"
          using a mw Some False s Inr by (simp add: Memory_priv_store_def)
        have "table_ok (m\<lparr>pages := AList.update pa r' (pages m)\<rparr>) w'" if t: "table_ok m w"
        proof (rule table_ok_update)
          show "table_ok m w'" using t e by (rule table_ok_ext)
          have "r < next_ref w" "addr (heap w r) = pa" using t mem by (auto simp: table_ok_def)
          with rr [OF Inr] show "r' < next_ref w'" "addr (heap w' r') = pa" by auto
        qed
        then show ?thesis using mw mw' e by (simp add: pres_def)
      qed
    qed
  qed
qed

lemma pres_priv_load:
  "Memory_priv_load pa pi mw = (res, mw') \<Longrightarrow> pres mw mw'"
proof -
  assume a: "Memory_priv_load pa pi mw = (res, mw')"
  obtain m w where mw: "mw = (m, w)" by (cases mw)
  show ?thesis
  proof (cases "map_of (pages m) pa")
    case None
    then show ?thesis using a mw by (simp add: Memory_priv_load_def pres_refl)
  next
    case (Some r)
    obtain pl w' where l: "Page_load r pi w = (pl, w')" by (cases "Page_load r pi w")
    have e: "ext w w'" using ext_Page_load [of w r pi] l by simp
    have "mw' = (m, w')" using a mw Some l by (cases pl) (simp_all add: Memory_priv_load_def)
    then show ?thesis using mw e by (auto simp: pres_def intro: table_ok_ext)
  qed
qed

lemma table_ok_static: "pages m' = pages m \<Longrightarrow> table_ok m' w = table_ok m w"
  by (simp add: table_ok_def)

lemma pres_add_constraints: "pres mw mw' \<Longrightarrow> pres mw (add_constraints c (fst mw'), snd mw')"
  by (simp add: pres_def table_ok_def add_constraints_def)

lemma pres_mmap_loop: "pres (m, w) (mmap_loop init_val slots st (m, w))"
proof (induction slots arbitrary: st m w)
  case Nil
  then show ?case by (simp add: pres_refl)
next
  case (Cons a slots)
  obtain ix di df where st: "st = (ix, di, df)" by (cases st)
  show ?case
  proof (cases "has_page m a")
    case True
    then show ?thesis using Cons.IH st by simp
  next
    case False
    define ini where "ini = (case ix of None \<Rightarrow> None | Some i \<Rightarrow> Some (py_slice init_val di df, i))"
    define st' :: "int option \<times> int \<times> int" where "st' = (case ix of None \<Rightarrow> (None, di, df) | Some i \<Rightarrow> (Some 0, df, df + page_size m))"
    define w' where "w' = snd (alloc (Page a (page_size m) (index_bits m) ini) w)"
    define m' where "m' = m\<lparr>pages := AList.update a (next_ref w) (pages m)\<rparr>"
    have step: "mmap_loop init_val (a # slots) st (m, w) = mmap_loop init_val slots st' (m', w')"
      using False st by (cases ix) (simp_all add: ini_def st'_def w'_def m'_def alloc_def)
    have e: "ext w w'" unfolding w'_def by (rule ext_alloc)
    have "table_ok m' w'" if t: "table_ok m w"
      unfolding m'_def
    proof (rule table_ok_update)
      show "table_ok m w'" using t e by (rule table_ok_ext)
      show "next_ref w < next_ref w'" "addr (heap w' (next_ref w)) = a"
        by (simp_all add: w'_def alloc_def Page_def)
    qed
    then have "pres (m, w) (m', w')" using e by (simp add: pres_def)
    then show ?thesis using Cons.IH [where st = st' and m = m' and w = w'] step by (auto intro: pres_trans)
  qed
qed

lemma pres_mmap_loop_pair: "pres mw (mmap_loop init_val slots st mw)"
  by (cases mw) (simp add: pres_mmap_loop)

lemma pres_mmap: "Memory_mmap address sz ini mw = (res, mw') \<Longrightarrow> pres mw mw'"
  by (auto simp: Memory_mmap_def Let_def pres_refl pres_mmap_loop_pair split: if_splits)

lemma pres_concretize: "concretize address n mw = (res, mw') \<Longrightarrow> pres mw mw'"
proof -
  assume a: "concretize address n mw = (res, mw')"
  define ac where "ac = Memory_get_unmapped (fst mw) n False * page_size (fst mw)"
  obtain r1 mw1 where mm: "Memory_mmap ac (n * page_size (fst mw)) None mw = (r1, mw1)"
    by (cases "Memory_mmap ac (n * page_size (fst mw)) None mw")
  have p1: "pres mw mw1" using mm by (rule pres_mmap)
  show ?thesis
  proof (cases r1)
    case (Inl e)
    then show ?thesis using a mm p1 by (simp add: concretize_def ac_def Let_def)
  next
    case (Inr u)
    obtain m1 w1 where mw1: "mw1 = (m1, w1)" by (cases mw1)
    have "mw' = (add_constraints (Eq address (bvv ac (bv_size address))) m1, w1)"
      using a mm Inr mw1 by (simp add: concretize_def ac_def Let_def)
    then show ?thesis using pres_add_constraints [OF p1] mw1 by simp
  qed
qed

lemma pres_resolve_address: "resolve_address cfg address sz mw = (res, mw') \<Longrightarrow> pres mw mw'"
  by (auto simp: resolve_address_def pres_refl split: sum.splits if_splits dest: pres_concretize)


lemma pres_store_sym_loop:
  "store_sym_loop cfg pa pi val ks (acc, mw) = (res, mw') \<Longrightarrow> pres mw mw'"
proof (induction ks arbitrary: acc mw)
  case Nil
  then show ?case by (simp add: pres_refl)
next
  case (Cons p ks)
  obtain pas conds where acc: "acc = (pas, conds)" by (cases acc)
  obtain m w where mw: "mw = (m, w)" by (cases mw)
  show ?case
  proof (cases "solver_satisfiable cfg (solver m) [Eq pa (bvv p (bv_size pa))]")
    case False
    then show ?thesis using Cons acc mw by simp
  next
    case True
    obtain r1 mw1 where ps: "Memory_priv_store p pi val (Some (simplify_bool (Eq pa (bvv p (bv_size pa))))) (m, w) = (r1, mw1)"
      by (cases "Memory_priv_store p pi val (Some (simplify_bool (Eq pa (bvv p (bv_size pa))))) (m, w)")
    have p1: "pres mw mw1" using pres_priv_store [OF ps] mw by simp
    show ?thesis
    proof (cases r1)
      case (Inl e)
      then show ?thesis using Cons.prems acc mw True ps p1 by (simp add: Let_def)
    next
      case (Inr u)
      have "store_sym_loop cfg pa pi val ks
              ((List.insert p pas, conds @ [simplify_bool (Eq pa (bvv p (bv_size pa)))]), mw1) = (res, mw')"
        using Cons.prems acc mw True ps Inr by (simp add: Let_def)
      from Cons.IH [OF this] p1 show ?thesis by (rule pres_trans [rotated])
    qed
  qed
qed

lemma pres_store_tier:
  "store_tier cfg address val endness i st = (res, mw') \<Longrightarrow> pres (snd st) mw'"
  by (cases st)
     (auto simp: store_tier_def Let_def pres_refl
           split: if_splits sum.splits prod.splits
           dest: pres_priv_store pres_store_sym_loop)

lemma pres_store_byte:
  "store_byte cfg address val endness i st = (res, mw') \<Longrightarrow> pres (snd st) mw'"
proof -
  assume a: "store_byte cfg address val endness i st = (res, mw')"
  obtain r1 m1 w1 where t: "store_tier cfg address val endness i st = (r1, m1, w1)"
    by (cases "store_tier cfg address val endness i st")
  have p1: "pres (snd st) (m1, w1)" using t by (rule pres_store_tier)
  show ?thesis
  proof (cases r1)
    case (Inl e)
    then show ?thesis using a t p1 by (simp add: store_byte_def)
  next
    case (Inr acc)
    obtain pas conds where acc: "acc = (pas, conds)" by (cases acc)
    show ?thesis
      using a t Inr acc p1 pres_add_constraints [OF p1, of "simplify_bool (Or conds)"]
      by (auto simp: store_byte_def split: if_splits)
  qed
qed

lemma pres_store_loop:
  "store_loop cfg address val endness is st = (res, mw') \<Longrightarrow> pres (snd st) mw'"
proof (induction "is" arbitrary: st)
  case Nil
  then show ?case by (cases st) (auto simp: pres_refl)
next
  case (Cons i "is")
  obtain r1 mw1 where b: "store_byte cfg address val endness i st = (r1, mw1)"
    by (cases "store_byte cfg address val endness i st")
  have p1: "pres (snd st) mw1" using b by (rule pres_store_byte)
  show ?case
  proof (cases r1)
    case (Inl e)
    then show ?thesis using Cons.prems b p1 by simp
  next
    case (Inr acc)
    have "store_loop cfg address val endness is (acc, mw1) = (res, mw')"
      using Cons.prems b Inr by simp
    from Cons.IH [OF this] p1 show ?thesis by (auto intro: pres_trans)
  qed
qed

lemma pres_simplify_pages:
  "simplify_pages ps mw = (res, mw') \<Longrightarrow> pres mw mw'"
proof (induction ps arbitrary: mw)
  case Nil
  then show ?case by (simp add: pres_refl)
next
  case (Cons p ps)
  obtain m w where mw: "mw = (m, w)" by (cases mw)
  show ?case
  proof (cases "map_of (pages m) p")
    case None
    then show ?thesis using Cons.prems mw by (simp add: pres_refl)
  next
    case (Some r)
    define w1 where "w1 = set_page r ((heap w r)\<lparr>mo := mo_simplify (mo (heap w r))\<rparr>) w"
    have e: "ext w w1" unfolding w1_def by (rule ext_set_page) simp
    then have p1: "pres mw (m, w1)" using mw by (auto simp: pres_def intro: table_ok_ext)
    have "simplify_pages ps (m, w1) = (res, mw')" using Cons.prems mw Some by (simp add: w1_def)
    from Cons.IH [OF this] p1 show ?thesis by (auto intro: pres_trans)
  qed
qed

lemma pres_Memory_store:
  "Memory_store cfg address val endness mw = (res, mw') \<Longrightarrow> pres mw mw'"
proof -
  assume a: "Memory_store cfg address val endness mw = (res, mw')"
  show ?thesis
  proof (cases "bv_size address \<noteq> bits (fst mw)")
    case True
    then show ?thesis using a by (simp add: Memory_store_def pres_refl)
  next
    case False
    obtain r1 mw1 where ra: "resolve_address cfg address (int (bv_size val)) mw = (r1, mw1)"
      by (cases "resolve_address cfg address (int (bv_size val)) mw")
    have p1: "pres mw mw1" using ra by (rule pres_resolve_address)
    show ?thesis
    proof (cases r1)
      case (Inl e)
      then show ?thesis using a False ra p1 by (simp add: Memory_store_def)
    next
      case (Inr address')
      show ?thesis
      proof (cases "bv_size val mod 8 \<noteq> 0")
        case True
        then show ?thesis using a False ra Inr p1 by (simp add: Memory_store_def)
      next
        case m8: False
        obtain r2 mw2 where sl: "store_loop cfg address' val endness (rev [0 ..< bv_size val div 8]) (([], []), mw1) = (r2, mw2)"
          by (cases "store_loop cfg address' val endness (rev [0 ..< bv_size val div 8]) (([], []), mw1)")
        have p2: "pres mw mw2" using pres_store_loop [OF sl] p1 by (auto intro: pres_trans)
        show ?thesis
        proof (cases r2)
          case (Inl e)
          then show ?thesis using a False ra Inr m8 sl p2 by (simp add: Memory_store_def)
        next
          case (Inr acc)
          obtain pas conds where acc: "acc = (pas, conds)" by (cases acc)
          have "simplify_pages pas mw2 = (res, mw')"
            using a False ra \<open>r1 = Inr address'\<close> m8 sl Inr acc by (simp add: Memory_store_def)
          from pres_simplify_pages [OF this] p2 show ?thesis by (auto intro: pres_trans)
        qed
      qed
    qed
  qed
qed


lemma pres_load_sym_loop:
  "load_sym_loop cfg pa pi ks (acc, mw) = (res, mw') \<Longrightarrow> pres mw mw'"
proof (induction ks arbitrary: acc mw)
  case Nil
  then show ?case by (simp add: pres_refl)
next
  case (Cons p ks)
  obtain r0 conds where acc: "acc = (r0, conds)" by (cases acc)
  obtain m w where mw: "mw = (m, w)" by (cases mw)
  show ?case
  proof (cases "solver_satisfiable cfg (solver m) [Eq pa (bvv p (bv_size pa))]")
    case False
    then show ?thesis using Cons acc mw by simp
  next
    case True
    obtain r1 mw1 where pl: "Memory_priv_load p pi (m, w) = (r1, mw1)"
      by (cases "Memory_priv_load p pi (m, w)")
    have p1: "pres mw mw1" using pres_priv_load [OF pl] mw by simp
    show ?thesis
    proof (cases r1)
      case (Inl e)
      then show ?thesis using Cons.prems acc mw True pl p1 by (simp add: Let_def)
    next
      case (Inr b)
      have "\<exists>acc'. load_sym_loop cfg pa pi ks (acc', mw1) = (res, mw')"
        using Cons.prems acc mw True pl Inr by (auto simp: Let_def)
      then obtain acc' where "load_sym_loop cfg pa pi ks (acc', mw1) = (res, mw')" ..
      from Cons.IH [OF this] p1 show ?thesis by (rule pres_trans [rotated])
    qed
  qed
qed

lemma pres_load_byte:
  "load_byte cfg address i st = (res, mw') \<Longrightarrow> pres (snd st) mw'"
  by (cases st)
     (auto simp: load_byte_def Let_def pres_refl
           split: if_splits sum.splits prod.splits
           dest: pres_priv_load pres_load_sym_loop)

lemma pres_load_loop:
  "load_loop cfg address is st = (res, mw') \<Longrightarrow> pres (snd st) mw'"
proof (induction "is" arbitrary: st)
  case Nil
  then show ?case by (cases st) (auto simp: pres_refl)
next
  case (Cons i "is")
  obtain r1 mw1 where b: "load_byte cfg address i st = (r1, mw1)"
    by (cases "load_byte cfg address i st")
  have p1: "pres (snd st) mw1" using b by (rule pres_load_byte)
  show ?case
  proof (cases r1)
    case (Inl e)
    then show ?thesis using Cons.prems b p1 by simp
  next
    case (Inr acc)
    have "load_loop cfg address is (acc, mw1) = (res, mw')"
      using Cons.prems b Inr by simp
    from Cons.IH [OF this] p1 show ?thesis by (auto intro: pres_trans)
  qed
qed

lemma pres_report_unmapped: "pres mw (report_unmapped conds mw)"
  by (simp add: report_unmapped_def pres_def ext_def table_ok_def add_constraints_def Let_def)

lemma pres_Memory_load:
  "Memory_load cfg address sz endness mw = (res, mw') \<Longrightarrow> pres mw mw'"
proof -
  assume a: "Memory_load cfg address sz endness mw = (res, mw')"
  show ?thesis
  proof (cases "bv_size address \<noteq> bits (fst mw)")
    case True
    then show ?thesis using a by (simp add: Memory_load_def pres_refl)
  next
    case False
    obtain r1 mw1 where ra: "resolve_address cfg address sz mw = (r1, mw1)"
      by (cases "resolve_address cfg address sz mw")
    have p1: "pres mw mw1" using ra by (rule pres_resolve_address)
    show ?thesis
    proof (cases r1)
      case (Inl e)
      then show ?thesis using a False ra p1 by (simp add: Memory_load_def)
    next
      case (Inr address')
      define ran where "ran = (if endness = ''little'' then rev [0 ..< nat sz] else [0 ..< nat sz])"
      obtain r2 mw2 where ll: "load_loop cfg address' ran ((None, []), mw1) = (r2, mw2)"
        by (cases "load_loop cfg address' ran ((None, []), mw1)")
      have p2: "pres mw mw2" using pres_load_loop [OF ll] p1 by (auto intro: pres_trans)
      show ?thesis
      proof (cases r2)
        case (Inl e)
        then show ?thesis using a False ra \<open>r1 = Inr address'\<close> ll p2
          by (simp add: Memory_load_def ran_def Let_def)
      next
        case (Inr acc)
        obtain r0 conds where acc: "acc = (r0, conds)" by (cases acc)
        have "mw' = report_unmapped conds mw2"
          using a False ra \<open>r1 = Inr address'\<close> ll Inr acc
          by (auto simp: Memory_load_def ran_def Let_def split: option.splits if_splits)
        then show ?thesis using p2 pres_report_unmapped [of mw2 conds] by (auto intro: pres_trans)
      qed
    qed
  qed
qed

lemma copy_loop_entries:
  "set (fst (copy_loop ps (np, w))) \<subseteq> set np \<union> set ps"
proof (induction ps arbitrary: np w)
  case Nil
  then show ?case by simp
next
  case (Cons a ps)
  obtain k r where a: "a = (k, r)" by (cases a)
  have "set (AList.update k r np) \<subseteq> set np \<union> {(k, r)}"
    by (induction np) auto
  then show ?case using Cons.IH [of "AList.update k r np"] a
    by (auto simp: Page_copy_def)
qed

lemma copy_ok:
  assumes "Memory_copy st (m, w) = (m2, w')"
  shows "ext w w' \<and> (table_ok m w \<longrightarrow> table_ok m2 w')"
proof -
  obtain np w1 where c: "copy_loop (pages m) ([], w) = (np, w1)" by (cases "copy_loop (pages m) ([], w)")
  have w': "w' = w1" and pg: "pages m2 = np" using assms c by (auto simp: Memory_copy_def)
  have e: "ext w w'"
    using copy_loop_heap [of "pages m" "[]" w] copy_loop_rest [of "pages m" "[]" w] c w'
    by (simp add: ext_def)
  have "set np \<subseteq> set (pages m)" using copy_loop_entries [of "pages m" "[]" w] c by simp
  then have "table_ok m2 w'" if "table_ok m w"
    using table_ok_ext [OF that e] pg by (auto simp: table_ok_def)
  then show ?thesis using e by simp
qed

lemma system_ok_update:
  assumes "system_ok (ms, w)" and "i < length ms" and "pres (ms ! i, w) (m', w')"
  shows "system_ok (ms[i := m'], w')"
proof -
  have e: "ext w w'" and t: "table_ok m' w'"
    using assms by (auto simp: pres_def system_ok_def)
  have "table_ok m w'" if "m \<in> set (ms[i := m'])" for m
  proof (cases "m = m'")
    case True
    then show ?thesis using t by simp
  next
    case False
    then have "m \<in> set ms" using that set_update_subset_insert [of ms i m'] by auto
    then show ?thesis using assms(1) e by (auto simp: system_ok_def intro: table_ok_ext)
  qed
  then show ?thesis by (simp add: system_ok_def)
qed

lemma system_ok_step: "system_ok s \<Longrightarrow> system_ok (step cfg x s)"
proof -
  assume ok: "system_ok s"
  obtain ms w where s: "s = (ms, w)" by (cases s)
  show ?thesis
  proof (cases x)
    case (OpNew b ps ib st)
    then show ?thesis using ok s by (auto simp: system_ok_def table_ok_def)
  next
    case (OpMmap i address sz ini)
    show ?thesis
    proof (cases "i < length ms")
      case True
      obtain r m' w' where c: "Memory_mmap address sz ini (ms ! i, w) = (r, m', w')"
        by (cases "Memory_mmap address sz ini (ms ! i, w)")
      from pres_mmap [OF c] show ?thesis
        using system_ok_update [of ms w i m' w'] ok s OpMmap True c by simp
    qed (use ok s OpMmap in simp)
  next
    case (OpStore i address val endness)
    show ?thesis
    proof (cases "i < length ms")
      case True
      obtain r m' w' where c: "Memory_store cfg address val endness (ms ! i, w) = (r, m', w')"
        by (cases "Memory_store cfg address val endness (ms ! i, w)")
      from pres_Memory_store [OF c] show ?thesis
        using system_ok_update [of ms w i m' w'] ok s OpStore True c by simp
    qed (use ok s OpStore in simp)
  next
    case (OpLoad i address sz endness)
    show ?thesis
    proof (cases "i < length ms")
      case True
      obtain r m' w' where c: "Memory_load cfg address sz endness (ms ! i, w) = (r, m', w')"
        by (cases "Memory_load cfg address sz endness (ms ! i, w)")
      from pres_Memory_load [OF c] show ?thesis
        using system_ok_update [of ms w i m' w'] ok s OpLoad True c by simp
    qed (use ok s OpLoad in simp)
  next
    case (OpCopy i st)
    show ?thesis
    proof (cases "i < length ms")
      case True
      obtain m2 w' where c: "Memory_copy st (ms ! i, w) = (m2, w')"
        by (cases "Memory_copy st (ms ! i, w)")
      have "ms ! i \<in> set ms" using True by simp
      then have ti: "table_ok (ms ! i) w" using ok s by (simp add: system_ok_def)
      from copy_ok [OF c] ti have e: "ext w w'" and t2: "table_ok m2 w'" by auto
      have "system_ok (ms @ [m2], w')"
        using ok s e t2 by (auto simp: system_ok_def intro: table_ok_ext)
      then show ?thesis using s OpCopy True c by simp
    qed (use ok s OpCopy in simp)
  qed
qed

lemma system_ok_run: "system_ok s \<Longrightarrow> system_ok (run cfg xs s)"
  by (induction xs arbitrary: s) (simp_all add: system_ok_step)


lemma mmap_loop_keys:
  "fst ` set (pages (fst (mmap_loop init_val slots st (m, w)))) = fst ` set (pages m) \<union> set slots"
proof (induction slots arbitrary: st m w)
  case Nil
  then show ?case by simp
next
  case (Cons a slots)
  obtain ix di df where st: "st = (ix, di, df)" by (cases st)
  show ?case
  proof (cases "has_page m a")
    case True
    then have "a \<in> fst ` set (pages m)"
      by (simp add: has_page_def map_of_eq_None_iff)
    then show ?thesis using True Cons.IH st by auto
  next
    case False
    show ?thesis
      using False st Cons.IH
      by (cases ix) (auto simp: alloc_def Let_def AList.dom_update)
  qed
qed

lemma mmap_keys:
  assumes "Memory_mmap address sz ini (m, w) = (Inr (), m', w')"
  shows "fst ` set (pages m') =
          fst ` set (pages m) \<union> {address div page_size m .. address div page_size m + sz div page_size m - 1}"
proof -
  define iv where "iv = (case ini of None \<Rightarrow> [] | Some (bytes, index) \<Rightarrow> bytes)"
  define st :: "int option \<times> int \<times> int"
    where "st = (case ini of None \<Rightarrow> (None, 0, 0) | Some (bytes, index) \<Rightarrow> (Some index, 0, page_size m - index))"
  have "mmap_loop iv [address div page_size m .. address div page_size m + sz div page_size m - 1] st (m, w) = (m', w')"
    using assms by (auto simp: Memory_mmap_def Let_def iv_def st_def split: if_splits)
  then have "m' = fst (mmap_loop iv [address div page_size m .. address div page_size m + sz div page_size m - 1] st (m, w))"
    by simp
  then show ?thesis by (simp add: mmap_loop_keys)
qed

text \<open>
  C5, as the code has it. The keys of the page table are page slots: a successful
  \<^verbatim>\<open>mmap(address, size)\<close> adds the slots from \<^verbatim>\<open>address // page_size\<close> up to, and not
  including, \<^verbatim>\<open>(address + size) // page_size\<close>. After any sequence of constructor, \<^verbatim>\<open>mmap\<close>,
  \<^verbatim>\<open>store\<close>, \<^verbatim>\<open>load\<close> and \<^verbatim>\<open>copy\<close> calls on any of the memories, whether they return or
  raise, every entry of every page table refers to a page whose \<open>addr\<close> is the key.
\<close>

theorem page_table_invariant:
  "system_ok (run cfg ops ([], w))
   \<and> (Memory_mmap address sz ini (m, w) = (Inr (), m', w') \<longrightarrow>
        fst ` set (pages m') =
          fst ` set (pages m) \<union> {address div page_size m .. address div page_size m + sz div page_size m - 1})"
proof
  have "system_ok ([], w)" by (simp add: system_ok_def)
  then show "system_ok (run cfg ops ([], w))" by (rule system_ok_run)
next
  show "Memory_mmap address sz ini (m, w) = (Inr (), m', w') \<longrightarrow>
        fst ` set (pages m') =
          fst ` set (pages m) \<union> {address div page_size m .. address div page_size m + sz div page_size m - 1}"
    by (rule impI) (rule mmap_keys)
qed

theorem page_table_invariant_witness:
  "system_ok (run amb_cfg example_ops ([], empty_world))
   \<and> table_view (run amb_cfg example_ops ([], empty_world)) =
       [[(1, 0, 1), (2, 1, 2)], [(1, 2, 1), (2, 1, 2), (3, 3, 3)]]
   \<and> fst (Memory_mmap 16 32 None (empty_memory, empty_world)) = Inr ()
   \<and> fst ` set (pages (fst mapped_state)) = {1, 2}"
proof -
  have v: "table_view (run amb_cfg example_ops ([], empty_world)) =
       [[(1, 0, 1), (2, 1, 2)], [(1, 2, 1), (2, 1, 2), (3, 3, 3)]]"
    by code_simp
  have r: "Memory_mmap 16 32 None (empty_memory, empty_world) = (Inr (), fst mapped_state, snd mapped_state)"
    by (simp add: mapped_state_def Memory_mmap_def empty_memory_def Let_def)
  have i: "{16 div page_size empty_memory .. 16 div page_size empty_memory + 32 div page_size empty_memory - 1} = {1, 2}"
    by (auto simp: empty_memory_def)
  show ?thesis
    using page_table_invariant [of amb_cfg example_ops empty_world 16 32 None empty_memory
            "fst mapped_state" "snd mapped_state"] v r i
    by (simp add: empty_memory_def)
qed

theorem page_table_keys_are_slots:
  "map fst (pages (fst mapped_state)) = [1, 2]
   \<and> page_size (fst mapped_state) = 16
   \<and> (1 :: int) mod 16 \<noteq> 0"
  by code_simp

section \<open>Mapping with init data\<close>

lemma py_slice_nonneg:
  "0 \<le> i \<Longrightarrow> i \<le> f \<Longrightarrow> py_slice xs i f = take (nat f - nat i) (drop (nat i) xs)"
  by (auto simp: py_slice_def py_bound_def min_def)

lemma loop_inits_chunks:
  "0 \<le> df \<Longrightarrow> 0 < ps \<Longrightarrow>
   loop_inits blob ps 0 df (df + ps) k = map (\<lambda>c. (c, 0)) (chunks (nat ps) (drop (nat df) blob) k)"
proof (induction k arbitrary: df)
  case 0
  then show ?case by simp
next
  case (Suc k)
  have "py_slice blob df (df + ps) = take (nat ps) (drop (nat df) blob)"
    using Suc.prems by (simp add: py_slice_nonneg nat_add_distrib)
  moreover have "drop (nat (df + ps)) blob = drop (nat ps) (drop (nat df) blob)"
    using Suc.prems by (simp add: nat_add_distrib add.commute)
  ultimately show ?case using Suc.IH [of "df + ps"] Suc.prems by simp
qed

lemma loop_inits_spec:
  "0 \<le> idx \<Longrightarrow> idx \<le> ps \<Longrightarrow> 0 < ps \<Longrightarrow>
   loop_inits blob ps idx 0 (ps - idx) k = spec_init_data blob ps idx k"
proof (cases k)
  case 0
  then show ?thesis by (simp add: spec_init_data_def)
next
  case (Suc k')
  assume a: "0 \<le> idx" "idx \<le> ps" "0 < ps"
  have "loop_inits blob ps 0 (ps - idx) ((ps - idx) + ps) k' =
        map (\<lambda>c. (c, 0)) (chunks (nat ps) (drop (nat (ps - idx)) blob) k')"
    using a by (intro loop_inits_chunks) simp_all
  moreover have "py_slice blob 0 (ps - idx) = take (nat (ps - idx)) blob"
    using a by (simp add: py_slice_nonneg)
  ultimately show ?thesis using Suc by (simp add: spec_init_data_def)
qed

lemma concat_chunks: "concat (chunks n xs k) = take (k * n) xs"
proof (induction k arbitrary: xs)
  case 0
  then show ?case by simp
next
  case (Suc k)
  have "take n xs @ take (k * n) (drop n xs) = take (n + k * n) xs"
    by (simp add: take_add)
  then show ?case using Suc.IH by simp
qed

lemma spec_init_data_cover:
  "0 \<le> idx \<Longrightarrow> idx \<le> ps \<Longrightarrow> 0 < k \<Longrightarrow>
   concat (map fst (spec_init_data blob ps idx k)) = take (nat (int k * ps - idx)) blob"
proof -
  assume a: "0 \<le> idx" "idx \<le> ps" "0 < k"
  then obtain k' where k: "k = Suc k'" by (cases k) auto
  have "map fst (map (\<lambda>c. (c, 0::int)) cs) = cs" for cs :: "int list list" by (induction cs) auto
  then have "concat (map fst (spec_init_data blob ps idx k)) =
        take (nat (ps - idx)) blob @ take (k' * nat ps) (drop (nat (ps - idx)) blob)"
    by (simp add: spec_init_data_def k concat_chunks)
  also have "\<dots> = take (nat (ps - idx) + k' * nat ps) blob" by (simp add: take_add)
  also have "nat (ps - idx) + k' * nat ps = nat (int k * ps - idx)"
  proof -
    have "int (nat (ps - idx) + k' * nat ps) = int k * ps - idx"
      using a k by (simp add: algebra_simps)
    then show ?thesis by (metis nat_int)
  qed
  finally show ?thesis .
qed


lemma has_page_update: "has_page (m\<lparr>pages := AList.update a r (pages m)\<rparr>) x = (x = a \<or> has_page m x)"
  by (simp add: has_page_def AList.update_conv')

lemma mmap_loop_init:
  assumes "distinct slots"
    and "mmap_loop blob slots (Some ix, di, df) (m, w) = (m', w')"
  shows "map (page_at (m', w')) (created_slots m slots) =
           map (\<lambda>ad. Some (Page (fst ad) (page_size m) (index_bits m) (Some (snd ad))))
             (zip (created_slots m slots)
                  (loop_inits blob (page_size m) ix di df (length (created_slots m slots))))
         \<and> (\<forall>r < next_ref w. heap w' r = heap w r)
         \<and> (\<forall>x. x \<notin> set slots \<longrightarrow> map_of (pages m') x = map_of (pages m) x)"
  using assms
proof (induction slots arbitrary: ix di df m w)
  case Nil
  then show ?case by (simp add: created_slots_def)
next
  case (Cons a slots)
  have d: "distinct slots" and na: "a \<notin> set slots" using Cons.prems(1) by auto
  show ?case
  proof (cases "has_page m a")
    case True
    then have "mmap_loop blob slots (Some ix, di, df) (m, w) = (m', w')"
      using Cons.prems(2) by simp
    from Cons.IH [OF d this] True show ?thesis by (simp add: created_slots_def)
  next
    case False
    define pg where "pg = Page a (page_size m) (index_bits m) (Some (py_slice blob di df, ix))"
    define m1 where "m1 = m\<lparr>pages := AList.update a (next_ref w) (pages m)\<rparr>"
    define w1 where "w1 = w\<lparr>heap := (heap w)(next_ref w := pg), next_ref := Suc (next_ref w)\<rparr>"
    have l: "mmap_loop blob slots (Some 0, df, df + page_size m) (m1, w1) = (m', w')"
      using Cons.prems(2) False by (simp add: alloc_def pg_def m1_def w1_def)
    from Cons.IH [OF d l]
    have ih1: "map (page_at (m', w')) (created_slots m1 slots) =
           map (\<lambda>ad. Some (Page (fst ad) (page_size m1) (index_bits m1) (Some (snd ad))))
             (zip (created_slots m1 slots)
                  (loop_inits blob (page_size m1) 0 df (df + page_size m) (length (created_slots m1 slots))))"
      and ih2: "\<forall>r < next_ref w1. heap w' r = heap w1 r"
      and ih3: "\<forall>x. x \<notin> set slots \<longrightarrow> map_of (pages m') x = map_of (pages m1) x"
      by auto
    have cs: "created_slots m1 slots = created_slots m slots"
      using na by (auto simp: created_slots_def m1_def has_page_update intro: filter_cong)
    have ps: "page_size m1 = page_size m" "index_bits m1 = index_bits m" by (simp_all add: m1_def)
    have "map_of (pages m') a = map_of (pages m1) a" using ih3 na by simp
    then have "map_of (pages m') a = Some (next_ref w)" by (simp add: m1_def AList.update_conv')
    moreover have "heap w' (next_ref w) = pg" using ih2 by (simp add: w1_def)
    ultimately have pa: "page_at (m', w') a = Some pg" by (simp add: page_at_def)
    have c1: "created_slots m (a # slots) = a # created_slots m slots"
      using False by (simp add: created_slots_def)
    have "map (page_at (m', w')) (created_slots m (a # slots)) =
           map (\<lambda>ad. Some (Page (fst ad) (page_size m) (index_bits m) (Some (snd ad))))
             (zip (created_slots m (a # slots))
                  (loop_inits blob (page_size m) ix di df (length (created_slots m (a # slots)))))"
      using ih1 pa by (simp add: c1 cs ps pg_def)
    moreover have "\<forall>r < next_ref w. heap w' r = heap w r" using ih2 by (simp add: w1_def)
    moreover have "\<forall>x. x \<notin> set (a # slots) \<longrightarrow> map_of (pages m') x = map_of (pages m) x"
      using ih3 by (simp add: m1_def AList.update_conv')
    ultimately show ?thesis by blast
  qed
qed


text \<open>
  The slicing when the first slot of the region is free. For a page-aligned region
  whose first slot is not yet mapped and a start offset between 0 and the page size,
  \<^verbatim>\<open>mmap\<close> succeeds; every slot of the region is mapped afterwards, and the slots that
  were absent hold new pages. The first of them, the first page of the region, has
  the start offset and the bytes that fit above it; each subsequent created page has
  offset 0 and the next page-sized slice. The slices are consecutive: together they
  are the blob up to the room of the created pages. Table entries outside the region
  and the page objects that existed are untouched.
\<close>

theorem mmap_init_slices:
  assumes "0 < page_size m" and "address mod page_size m = 0" and "sz mod page_size m = 0"
    and "0 < sz" and "0 \<le> idx" and "idx \<le> page_size m"
    and "\<not> has_page m (address div page_size m)"
    and "Memory_mmap address sz (Some (blob, idx)) (m, w) = (res, m', w')"
  shows "res = Inr ()
    \<and> (\<forall>a \<in> set (region_slots m address sz). has_page m' a)
    \<and> hd (created_slots m (region_slots m address sz)) = address div page_size m
    \<and> map (page_at (m', w')) (created_slots m (region_slots m address sz)) =
        map (\<lambda>ad. Some (Page (fst ad) (page_size m) (index_bits m) (Some (snd ad))))
          (zip (created_slots m (region_slots m address sz))
               (spec_init_data blob (page_size m) idx (length (created_slots m (region_slots m address sz)))))
    \<and> concat (map fst (spec_init_data blob (page_size m) idx (length (created_slots m (region_slots m address sz)))))
        = take (nat (int (length (created_slots m (region_slots m address sz))) * page_size m - idx)) blob
    \<and> (\<forall>x. x \<notin> set (region_slots m address sz) \<longrightarrow> map_of (pages m') x = map_of (pages m) x)
    \<and> (\<forall>r < next_ref w. heap w' r = heap w r)"
proof -
  define slots where "slots = region_slots m address sz"
  define cs where "cs = created_slots m slots"
  have r: "res = Inr ()"
    and l: "mmap_loop blob slots (Some idx, 0, page_size m - idx) (m, w) = (m', w')"
    using assms(1,2,3,8) by (auto simp: Memory_mmap_def Let_def slots_def region_slots_def)
  have n: "1 \<le> sz div page_size m"
    using assms(1,3,4) by (metis dvd_imp_le_int int_one_le_iff_zero_less mod_0_imp_dvd
        pos_imp_zdiv_pos_iff zdvd_imp_le zero_less_imp_eq_int less_le_not_le)
  have sl: "slots = (address div page_size m) # [address div page_size m + 1 .. address div page_size m + sz div page_size m - 1]"
    using n by (simp add: slots_def region_slots_def upto_rec1)
  have hd: "hd cs = address div page_size m" and ne: "0 < length cs"
    using assms(7) by (simp_all add: cs_def sl created_slots_def)
  have d: "distinct slots" by (simp add: slots_def region_slots_def)
  from mmap_loop_init [OF d l]
  have a1: "map (page_at (m', w')) cs =
           map (\<lambda>ad. Some (Page (fst ad) (page_size m) (index_bits m) (Some (snd ad))))
             (zip cs (loop_inits blob (page_size m) idx 0 (page_size m - idx) (length cs)))"
    and a2: "\<forall>r < next_ref w. heap w' r = heap w r"
    and a3: "\<forall>x. x \<notin> set slots \<longrightarrow> map_of (pages m') x = map_of (pages m) x"
    by (simp_all add: cs_def)
  have sp: "loop_inits blob (page_size m) idx 0 (page_size m - idx) (length cs) =
            spec_init_data blob (page_size m) idx (length cs)"
    using assms(1,5,6) by (intro loop_inits_spec)
  have cv: "concat (map fst (spec_init_data blob (page_size m) idx (length cs))) =
            take (nat (int (length cs) * page_size m - idx)) blob"
    using assms(5,6) ne by (intro spec_init_data_cover)
  have "Memory_mmap address sz (Some (blob, idx)) (m, w) = (Inr (), m', w')"
    using assms(8) r by simp
  from mmap_keys [OF this] have "set slots \<subseteq> fst ` set (pages m')"
    by (auto simp: slots_def region_slots_def)
  then have hp: "\<forall>a \<in> set slots. has_page m' a"
    by (auto simp: has_page_def map_of_eq_None_iff)
  show ?thesis
    using r hp hd a1 [unfolded sp] a2 a3 cv by (simp add: cs_def slots_def)
qed

theorem mmap_init_slices_witness:
  "0 < page_size empty_memory \<and> 16 mod page_size empty_memory = 0 \<and> 32 mod page_size empty_memory = 0
   \<and> \<not> has_page empty_memory (16 div page_size empty_memory)
   \<and> fst (Memory_mmap 16 32 (Some (blob20, 3)) (empty_memory, empty_world)) = Inr ()
   \<and> created_slots empty_memory (region_slots empty_memory 16 32) = [1, 2]
   \<and> map (page_at (snd (Memory_mmap 16 32 (Some (blob20, 3)) (empty_memory, empty_world)))) [1, 2] =
       [Some (Page 1 16 4 (Some ([1, 2, 3, 4, 5, 6, 7, 8, 9, 10, 11, 12, 13], 3))),
        Some (Page 2 16 4 (Some ([14, 15, 16, 17, 18, 19, 20], 0)))]
   \<and> concat (map fst (spec_init_data blob20 16 3 2)) = blob20"
proof -
  have h: "0 < page_size empty_memory" "16 mod page_size empty_memory = 0"
    "32 mod page_size empty_memory = 0" "(0::int) < 32" "(0::int) \<le> 3" "3 \<le> page_size empty_memory"
    "\<not> has_page empty_memory (16 div page_size empty_memory)"
    by (simp_all add: empty_memory_def has_page_def)
  have c: "created_slots empty_memory (region_slots empty_memory 16 32) = [1, 2]"
    by code_simp
  have v: "map (page_at (snd (Memory_mmap 16 32 (Some (blob20, 3)) (empty_memory, empty_world)))) [1, 2] =
       [Some (Page 1 16 4 (Some ([1, 2, 3, 4, 5, 6, 7, 8, 9, 10, 11, 12, 13], 3))),
        Some (Page 2 16 4 (Some ([14, 15, 16, 17, 18, 19, 20], 0)))]
     \<and> concat (map fst (spec_init_data blob20 16 3 2)) = blob20"
    by code_simp
  obtain res m' w' where e: "Memory_mmap 16 32 (Some (blob20, 3)) (empty_memory, empty_world) = (res, m', w')"
    by (cases "Memory_mmap 16 32 (Some (blob20, 3)) (empty_memory, empty_world)")
  from mmap_init_slices [OF h e] have "res = Inr ()" by simp
  then have "fst (Memory_mmap 16 32 (Some (blob20, 3)) (empty_memory, empty_world)) = Inr ()"
    using e by simp
  then show ?thesis using v h(1,2,3,7) c by simp
qed

text \<open>
  C8. When the first slot of the region is already mapped the blob is misplaced by a
  page. In \<open>remap_memory\<close> slot 1 is mapped; \<^verbatim>\<open>mmap(16, 32, InitData(blob20, 3))\<close> covers
  slots 1 and 2. The slicing state advances only when a page is created, so the start
  offset 3 and the first 13 bytes, which belong to the first page of the region, go to
  slot 2, a subsequent page, and slot 1 keeps its page with no init data.
\<close>

theorem mmap_init_first_slot_mapped:
  "has_page remap_memory 1
   \<and> region_slots remap_memory 16 32 = [1, 2]
   \<and> fst (Memory_mmap 16 32 (Some (blob20, 3)) (remap_memory, two_world)) = Inr ()
   \<and> page_at (snd (Memory_mmap 16 32 (Some (blob20, 3)) (remap_memory, two_world))) 2 =
       Some (Page 2 16 4 (Some ([1, 2, 3, 4, 5, 6, 7, 8, 9, 10, 11, 12, 13], 3)))
   \<and> page_at (snd (Memory_mmap 16 32 (Some (blob20, 3)) (remap_memory, two_world))) 1 =
       Some (Page 1 16 4 None)"
  by code_simp

section \<open>What the page operations do to the heap\<close>

lemma inited_simps [simp]:
  "page_view (inited p) = page_view p" "page_fits (inited p)" "addr (inited p) = addr p"
  "lazycopy (inited p) = lazycopy p" "init_p (inited p) = None" "mo (inited p) = page_view p"
  "size_p (inited p) = size_p p" "bits_p (inited p) = bits_p p"
  by (simp_all add: inited_def page_view_def page_fits_def)

lemma inited_idem [simp]: "inited (inited p) = inited p"
  by (simp add: inited_def page_view_def)

lemma inited_no_init: "init_p p = None \<Longrightarrow> inited p = p"
  by (simp add: inited_def page_view_def)

lemma set_page_same [simp]: "set_page r (heap w r) w = w"
  by (simp add: set_page_def)

lemma lazy_init_fits:
  "page_fits (heap w r) \<Longrightarrow> Page_lazy_init r w = (Inr (), set_page r (inited (heap w r)) w)"
proof (cases "init_p (heap w r)")
  case None
  then show ?thesis by (simp add: Page_lazy_init_def inited_no_init)
next
  case (Some a)
  assume "page_fits (heap w r)"
  then show ?thesis using Some
    by (cases a) (simp add: Page_lazy_init_def page_fits_def inited_def page_view_def Let_def)
qed

lemma lazy_init_unfit:
  "\<not> page_fits (heap w r) \<Longrightarrow> Page_lazy_init r w = (Inl AssertionError, w)"
  by (auto simp: Page_lazy_init_def page_fits_def Let_def split: option.splits)

lemma set_page_simps [simp]:
  "heap (set_page r p w) = (heap w)(r := p)" "next_ref (set_page r p w) = next_ref w"
  "errored (set_page r p w) = errored w"
  by (simp_all add: set_page_def)

lemma Page_load_fits:
  "page_fits (heap w r) \<Longrightarrow>
   Page_load r index w = (Inr (Select (page_view (heap w r)) index), set_page r (inited (heap w r)) w)"
  by (simp add: Page_load_def lazy_init_fits mo_load_def)

lemma Page_load_unfit:
  "\<not> page_fits (heap w r) \<Longrightarrow> Page_load r index w = (Inl AssertionError, w)"
  by (simp add: Page_load_def lazy_init_unfit)

lemma Page_store_unfit:
  "\<not> page_fits (heap w r) \<Longrightarrow> Page_store r index val c w = (Inl AssertionError, w)"
  by (simp add: Page_store_def lazy_init_unfit)

lemma Page_store_inplace:
  "page_fits (heap w r) \<Longrightarrow> \<not> lazycopy (heap w r) \<Longrightarrow>
   Page_store r index val c w =
     (Inr r, set_page r ((inited (heap w r))\<lparr>mo := Store (page_view (heap w r)) index val\<rparr>) w)"
  by (simp add: Page_store_def lazy_init_fits mo_store_def set_page_def)

lemma Page_store_own_fits:
  "page_fits (heap w r) \<Longrightarrow>
   Page_store_own r index val w =
     (Inr r, set_page r ((inited (heap w r))\<lparr>mo := Store (page_view (heap w r)) index val\<rparr>) w)"
  by (simp add: Page_store_own_def lazy_init_fits mo_store_def set_page_def)

lemma Page_store_cow:
  assumes "page_fits (heap w r)" and "lazycopy (heap w r)"
  shows "Page_store r index val c w =
     (Inr (next_ref w),
      w\<lparr>heap := (heap w)
           (r := (inited (heap w r))\<lparr>lazycopy := False\<rparr>,
            next_ref w := cow_page (heap w r) index val),
         next_ref := Suc (next_ref w)\<rparr>)"
proof -
  define p where "p = heap w r"
  define w2 where "w2 = set_page r ((inited p)\<lparr>lazycopy := False\<rparr>) w"
  define np where "np = (Page (addr p) (size_p p) (bits_p p) None)\<lparr>mo := page_view p\<rparr>"
  define w3 where "w3 = w2\<lparr>heap := (heap w2)(next_ref w := np), next_ref := Suc (next_ref w)\<rparr>"
  have 1: "Page_store r index val c w = Page_store_own (next_ref w) index val w3"
    using assms
    by (simp add: Page_store_def lazy_init_fits Let_def alloc_def mo_copy_def
                  p_def w2_def np_def w3_def set_page_def)
  have f: "page_fits (heap w3 (next_ref w))" by (simp add: w3_def np_def Page_def page_fits_def)
  have i: "inited np = np" by (simp add: np_def Page_def inited_no_init)
  have v: "page_view np = page_view p" by (simp add: np_def Page_def page_view_def)
  have "Page_store_own (next_ref w) index val w3 =
        (Inr (next_ref w), set_page (next_ref w) (np\<lparr>mo := Store (page_view p) index val\<rparr>) w3)"
    using Page_store_own_fits [OF f, of index val] by (simp add: w3_def i v)
  moreover have "np\<lparr>mo := Store (page_view p) index val\<rparr> = cow_page p index val"
    by (simp add: np_def Page_def cow_page_def)
  ultimately show ?thesis
    unfolding 1 by (simp add: w3_def w2_def set_page_def p_def)
qed


section \<open>Stores through one memory leave the other alone\<close>

lemma frame_refl: "frame other w w"
  by (simp add: frame_def)

lemma frame_trans: "frame other w w1 \<Longrightarrow> frame other w1 w2 \<Longrightarrow> frame other w w2"
  by (simp add: frame_def)

lemma keeps_refl: "keeps other mw mw"
  by (simp add: keeps_def frame_refl)

lemma keeps_trans: "keeps other mw mw1 \<Longrightarrow> keeps other mw1 mw2 \<Longrightarrow> keeps other mw mw2"
  by (auto simp: keeps_def intro: frame_trans)

lemma refs_bound: "table_ok m w \<Longrightarrow> r \<in> refs m \<Longrightarrow> r < next_ref w"
  by (auto simp: table_ok_def refs_def)

lemma set_update_distinct:
  "distinct (map fst al) \<Longrightarrow> (k, v0) \<in> set al \<Longrightarrow>
   set (AList.update k v al) = insert (k, v) (set al - {(k, v0)})"
proof (induction al)
  case Nil
  then show ?case by simp
next
  case (Cons a al)
  show ?case
  proof (cases "fst a = k")
    case True
    then have "a = (k, v0)" using Cons.prems by (cases a) (auto simp: image_iff)
    moreover have "(k, v0) \<notin> set al" using Cons.prems True by (auto simp: image_iff)
    ultimately show ?thesis by auto
  next
    case False
    then have "(k, v0) \<in> set al" using Cons.prems by auto
    with Cons.IH Cons.prems False show ?thesis by (cases a) auto
  qed
qed

lemma refs_update:
  assumes "distinct (map fst (pages m))" and "table_ok m w" and "map_of (pages m) pa = Some r"
  shows "refs (m\<lparr>pages := AList.update pa r' (pages m)\<rparr>) \<subseteq> insert r' (refs m - {r})"
proof -
  have mem: "(pa, r) \<in> set (pages m)" using assms(3) by (rule map_of_SomeD)
  have only: "k = pa" if "(k, r) \<in> set (pages m)" for k
  proof -
    have "addr (heap w (snd (k, r))) = fst (k, r)" "addr (heap w (snd (pa, r))) = fst (pa, r)"
      using that mem assms(2) unfolding table_ok_def by blast+
    then show ?thesis by simp
  qed
  show ?thesis
    using set_update_distinct [OF assms(1) mem, of r'] only
    by (auto simp: refs_def)
qed

lemma keeps_priv_store:
  assumes "Memory_priv_store pa pi val c mw = (res, mw')"
  shows "keeps other mw mw'"
proof -
  obtain m w where mw: "mw = (m, w)" by (cases mw)
  have p: "pres mw mw'" using assms by (rule pres_priv_store)
  show ?thesis
  proof (cases "map_of (pages m) pa")
    case None
    then show ?thesis using assms mw by (simp add: Memory_priv_store_def keeps_refl)
  next
    case (Some r)
    have rm: "r \<in> refs m" using Some by (force simp: refs_def dest: map_of_SomeD)
    show ?thesis
    proof (cases "bv_size val \<noteq> 8 \<or> \<not> page_fits (heap w r)")
      case True
      then show ?thesis using assms mw Some
        by (auto simp: Memory_priv_store_def Page_store_unfit keeps_refl split: if_splits)
    next
      case False
      then have f: "page_fits (heap w r)" and b: "bv_size val = 8" by auto
      show ?thesis
      proof (cases "lazycopy (heap w r)")
        case True
        define w' where "w' = w\<lparr>heap := (heap w)
             (r := (inited (heap w r))\<lparr>lazycopy := False\<rparr>, next_ref w := cow_page (heap w r) pi val),
             next_ref := Suc (next_ref w)\<rparr>"
        define m' where "m' = m\<lparr>pages := AList.update pa (next_ref w) (pages m)\<rparr>"
        have mw': "mw' = (m', w')"
          using assms mw Some b Page_store_cow [OF f True, of pi val c]
          by (simp add: Memory_priv_store_def w'_def m'_def)
        have "sep other m' w' \<and> frame other w w'" if s: "sep other m w"
        proof -
          have tm: "table_ok m w" and to: "table_ok other w" and dk: "distinct (map fst (pages m))"
            and sh: "\<forall>x \<in> refs m \<inter> refs other. lazycopy (heap w x)"
            using s by (auto simp: sep_def)
          have e: "ext w w'" and tm': "table_ok m' w'" using p mw mw' tm by (auto simp: pres_def)
          have to': "table_ok other w'" using to e by (rule table_ok_ext)
          have dk': "distinct (map fst (pages m'))" using dk by (simp add: m'_def AList.distinct_update)
          have ro: "x < next_ref w" if "x \<in> refs other" for x using to that by (rule refs_bound)
          have rmb: "x < next_ref w" if "x \<in> refs m" for x using tm that by (rule refs_bound)
          have sub: "refs m' \<subseteq> insert (next_ref w) (refs m - {r})"
            unfolding m'_def using dk tm Some by (rule refs_update)
          have sh': "\<forall>x \<in> refs m' \<inter> refs other. lazycopy (heap w' x)"
          proof
            fix x assume x: "x \<in> refs m' \<inter> refs other"
            then have "x \<noteq> next_ref w" using ro by auto
            with x sub have "x \<in> refs m" "x \<noteq> r" by auto
            then show "lazycopy (heap w' x)" using sh x \<open>x \<noteq> next_ref w\<close> by (simp add: w'_def)
          qed
          have fr: "frame other w w'"
            unfolding frame_def
          proof
            fix x assume x: "x \<in> refs other"
            then have "x \<noteq> next_ref w" using ro by auto
            then show "page_view (heap w' x) = page_view (heap w x) \<and> page_fits (heap w' x) = page_fits (heap w x)"
              using f by (cases "x = r") (simp_all add: w'_def page_view_def page_fits_def inited_def)
          qed
          show ?thesis using tm' to' dk' sh' fr by (simp add: sep_def)
        qed
        then show ?thesis using mw mw' by (simp add: keeps_def)
      next
        case lc: False
        define w' where "w' = set_page r ((inited (heap w r))\<lparr>mo := Store (page_view (heap w r)) pi val\<rparr>) w"
        have upd: "AList.update pa r (pages m) = pages m" using Some by (simp add: AList.update_triv)
        have mw': "mw' = (m, w')"
          using assms mw Some b Page_store_inplace [OF f lc, of pi val c]
          by (simp add: Memory_priv_store_def w'_def upd)
        have "sep other m w' \<and> frame other w w'" if s: "sep other m w"
        proof -
          have tm: "table_ok m w" and to: "table_ok other w" and dk: "distinct (map fst (pages m))"
            and sh: "\<forall>x \<in> refs m \<inter> refs other. lazycopy (heap w x)"
            using s by (auto simp: sep_def)
          have e: "ext w w'" and tm': "table_ok m w'" using p mw mw' tm by (auto simp: pres_def)
          have to': "table_ok other w'" using to e by (rule table_ok_ext)
          have nr: "r \<notin> refs other" using sh rm lc by auto
          have sh': "\<forall>x \<in> refs m \<inter> refs other. lazycopy (heap w' x)"
            using sh nr by (auto simp: w'_def)
          have fr: "frame other w w'" using nr by (auto simp: frame_def w'_def)
          show ?thesis using tm' to' dk sh' fr by (simp add: sep_def)
        qed
        then show ?thesis using mw mw' by (simp add: keeps_def)
      qed
    qed
  qed
qed

lemma keeps_heap_same:
  assumes "pres (m, w) (m', w')" and "pages m' = pages m"
    and "\<And>r. r < next_ref w \<Longrightarrow> page_view (heap w' r) = page_view (heap w r)
                 \<and> page_fits (heap w' r) = page_fits (heap w r)
                 \<and> lazycopy (heap w' r) = lazycopy (heap w r)"
  shows "keeps other (m, w) (m', w')"
proof -
  have "sep other m' w' \<and> frame other w w'" if s: "sep other m w"
  proof -
    have tm: "table_ok m w" and to: "table_ok other w" and dk: "distinct (map fst (pages m))"
      and sh: "\<forall>x \<in> refs m \<inter> refs other. lazycopy (heap w x)"
      using s by (auto simp: sep_def)
    have e: "ext w w'" and tm': "table_ok m' w'" using assms(1) tm by (auto simp: pres_def)
    have to': "table_ok other w'" using to e by (rule table_ok_ext)
    have ro: "x < next_ref w" if "x \<in> refs other" for x using to that by (rule refs_bound)
    have "refs m' = refs m" using assms(2) by (simp add: refs_def)
    then have sh': "\<forall>x \<in> refs m' \<inter> refs other. lazycopy (heap w' x)"
      using sh assms(3) ro by auto
    have fr: "frame other w w'" using assms(3) ro by (simp add: frame_def)
    show ?thesis using tm' to' dk sh' fr assms(2) by (simp add: sep_def)
  qed
  then show ?thesis by (simp add: keeps_def)
qed

lemma keeps_priv_load:
  assumes "Memory_priv_load pa pi mw = (res, mw')"
  shows "keeps other mw mw'"
proof -
  obtain m w where mw: "mw = (m, w)" by (cases mw)
  have p: "pres mw mw'" using assms by (rule pres_priv_load)
  show ?thesis
  proof (cases "map_of (pages m) pa")
    case None
    then show ?thesis using assms mw by (simp add: Memory_priv_load_def keeps_refl)
  next
    case (Some r)
    show ?thesis
    proof (cases "page_fits (heap w r)")
      case False
      then show ?thesis using assms mw Some
        by (auto simp: Memory_priv_load_def Page_load_unfit keeps_refl)
    next
      case True
      have mw': "mw' = (m, set_page r (inited (heap w r)) w)"
        using assms mw Some Page_load_fits [OF True, of pi] by (auto simp: Memory_priv_load_def)
      show ?thesis
        unfolding mw mw'
      proof (rule keeps_heap_same)
        show "pres (m, w) (m, set_page r (inited (heap w r)) w)" using p mw mw' by simp
      qed (use True in auto)
    qed
  qed
qed

lemma keeps_add_constraints: "keeps other mw mw' \<Longrightarrow> keeps other mw (add_constraints c (fst mw'), snd mw')"
  by (simp add: keeps_def sep_def table_ok_def add_constraints_def refs_def)

lemma keeps_mmap_loop: "keeps other (m, w) (mmap_loop init_val slots st (m, w))"
proof (induction slots arbitrary: st m w)
  case Nil
  then show ?case by (simp add: keeps_refl)
next
  case (Cons a slots)
  obtain ix di df where st: "st = (ix, di, df)" by (cases st)
  show ?case
  proof (cases "has_page m a")
    case True
    then show ?thesis using Cons.IH st by simp
  next
    case False
    define ini where "ini = (case ix of None \<Rightarrow> None | Some i \<Rightarrow> Some (py_slice init_val di df, i))"
    define st' :: "int option \<times> int \<times> int"
      where "st' = (case ix of None \<Rightarrow> (None, di, df) | Some i \<Rightarrow> (Some 0, df, df + page_size m))"
    define w' where "w' = snd (alloc (Page a (page_size m) (index_bits m) ini) w)"
    define m' where "m' = m\<lparr>pages := AList.update a (next_ref w) (pages m)\<rparr>"
    have step: "mmap_loop init_val (a # slots) st (m, w) = mmap_loop init_val slots st' (m', w')"
      using False st by (cases ix) (simp_all add: ini_def st'_def w'_def m'_def alloc_def)
    have one: "mmap_loop init_val [a] st (m, w) = (m', w')"
      using False st by (cases ix) (simp_all add: ini_def st'_def w'_def m'_def alloc_def)
    have p: "pres (m, w) (m', w')" using pres_mmap_loop [of m w init_val "[a]" st] one by simp
    have na: "a \<notin> fst ` set (pages m)" using False by (simp add: has_page_def map_of_eq_None_iff)
    have "sep other m' w' \<and> frame other w w'" if s: "sep other m w"
    proof -
      have tm: "table_ok m w" and to: "table_ok other w" and dk: "distinct (map fst (pages m))"
        and sh: "\<forall>x \<in> refs m \<inter> refs other. lazycopy (heap w x)"
        using s by (auto simp: sep_def)
      have e: "ext w w'" and tm': "table_ok m' w'" using p tm by (auto simp: pres_def)
      have to': "table_ok other w'" using to e by (rule table_ok_ext)
      have dk': "distinct (map fst (pages m'))" using dk by (simp add: m'_def AList.distinct_update)
      have ro: "x < next_ref w" if "x \<in> refs other" for x using to that by (rule refs_bound)
      have old: "heap w' x = heap w x" if "x < next_ref w" for x using that by (simp add: w'_def alloc_def)
      have "refs m' \<subseteq> insert (next_ref w) (refs m)"
        using na by (auto simp: refs_def m'_def update_fresh_key)
      then have sh': "\<forall>x \<in> refs m' \<inter> refs other. lazycopy (heap w' x)"
        using sh ro old by (metis Int_iff insert_iff less_irrefl subsetD)
      have fr: "frame other w w'" using ro old by (simp add: frame_def)
      show ?thesis using tm' to' dk' sh' fr by (simp add: sep_def)
    qed
    then have "keeps other (m, w) (m', w')" by (simp add: keeps_def)
    then show ?thesis using Cons.IH [where st = st' and m = m' and w = w'] step
      by (auto intro: keeps_trans)
  qed
qed

lemma keeps_mmap_loop_pair: "keeps other mw (mmap_loop init_val slots st mw)"
  by (cases mw) (simp add: keeps_mmap_loop)

lemma keeps_mmap: "Memory_mmap address sz ini mw = (res, mw') \<Longrightarrow> keeps other mw mw'"
  by (auto simp: Memory_mmap_def Let_def keeps_refl keeps_mmap_loop_pair split: if_splits)

lemma keeps_concretize: "concretize address n mw = (res, mw') \<Longrightarrow> keeps other mw mw'"
proof -
  assume a: "concretize address n mw = (res, mw')"
  define ac where "ac = Memory_get_unmapped (fst mw) n False * page_size (fst mw)"
  obtain r1 mw1 where mm: "Memory_mmap ac (n * page_size (fst mw)) None mw = (r1, mw1)"
    by (cases "Memory_mmap ac (n * page_size (fst mw)) None mw")
  have p1: "keeps other mw mw1" using mm by (rule keeps_mmap)
  show ?thesis
  proof (cases r1)
    case (Inl e)
    then show ?thesis using a mm p1 by (simp add: concretize_def ac_def Let_def)
  next
    case (Inr u)
    obtain m1 w1 where mw1: "mw1 = (m1, w1)" by (cases mw1)
    have "mw' = (add_constraints (Eq address (bvv ac (bv_size address))) m1, w1)"
      using a mm Inr mw1 by (simp add: concretize_def ac_def Let_def)
    then show ?thesis using keeps_add_constraints [OF p1] mw1 by simp
  qed
qed

lemma keeps_resolve_address: "resolve_address cfg address sz mw = (res, mw') \<Longrightarrow> keeps other mw mw'"
  by (auto simp: resolve_address_def keeps_refl split: sum.splits if_splits dest: keeps_concretize)


lemma keeps_store_sym_loop:
  "store_sym_loop cfg pa pi val ks (acc, mw) = (res, mw') \<Longrightarrow> keeps other mw mw'"
proof (induction ks arbitrary: acc mw)
  case Nil
  then show ?case by (simp add: keeps_refl)
next
  case (Cons p ks)
  obtain pas conds where acc: "acc = (pas, conds)" by (cases acc)
  obtain m w where mw: "mw = (m, w)" by (cases mw)
  show ?case
  proof (cases "solver_satisfiable cfg (solver m) [Eq pa (bvv p (bv_size pa))]")
    case False
    then show ?thesis using Cons acc mw by simp
  next
    case True
    obtain r1 mw1 where ps: "Memory_priv_store p pi val (Some (simplify_bool (Eq pa (bvv p (bv_size pa))))) (m, w) = (r1, mw1)"
      by (cases "Memory_priv_store p pi val (Some (simplify_bool (Eq pa (bvv p (bv_size pa))))) (m, w)")
    have p1: "keeps other mw mw1" using keeps_priv_store [OF ps] mw by simp
    show ?thesis
    proof (cases r1)
      case (Inl e)
      then show ?thesis using Cons.prems acc mw True ps p1 by (simp add: Let_def)
    next
      case (Inr u)
      have "store_sym_loop cfg pa pi val ks
              ((List.insert p pas, conds @ [simplify_bool (Eq pa (bvv p (bv_size pa)))]), mw1) = (res, mw')"
        using Cons.prems acc mw True ps Inr by (simp add: Let_def)
      from Cons.IH [OF this] p1 show ?thesis by (rule keeps_trans [rotated])
    qed
  qed
qed

lemma keeps_store_tier:
  "store_tier cfg address val endness i st = (res, mw') \<Longrightarrow> keeps other (snd st) mw'"
  by (cases st)
     (auto simp: store_tier_def Let_def keeps_refl
           split: if_splits sum.splits prod.splits
           dest: keeps_priv_store keeps_store_sym_loop)

lemma keeps_store_byte:
  "store_byte cfg address val endness i st = (res, mw') \<Longrightarrow> keeps other (snd st) mw'"
proof -
  assume a: "store_byte cfg address val endness i st = (res, mw')"
  obtain r1 m1 w1 where t: "store_tier cfg address val endness i st = (r1, m1, w1)"
    by (cases "store_tier cfg address val endness i st")
  have p1: "keeps other (snd st) (m1, w1)" using t by (rule keeps_store_tier)
  show ?thesis
  proof (cases r1)
    case (Inl e)
    then show ?thesis using a t p1 by (simp add: store_byte_def)
  next
    case (Inr acc)
    obtain pas conds where acc: "acc = (pas, conds)" by (cases acc)
    show ?thesis
      using a t Inr acc p1 keeps_add_constraints [OF p1, of "simplify_bool (Or conds)"]
      by (auto simp: store_byte_def split: if_splits)
  qed
qed

lemma keeps_store_loop:
  "store_loop cfg address val endness is st = (res, mw') \<Longrightarrow> keeps other (snd st) mw'"
proof (induction "is" arbitrary: st)
  case Nil
  then show ?case by (cases st) (auto simp: keeps_refl)
next
  case (Cons i "is")
  obtain r1 mw1 where b: "store_byte cfg address val endness i st = (r1, mw1)"
    by (cases "store_byte cfg address val endness i st")
  have p1: "keeps other (snd st) mw1" using b by (rule keeps_store_byte)
  show ?case
  proof (cases r1)
    case (Inl e)
    then show ?thesis using Cons.prems b p1 by simp
  next
    case (Inr acc)
    have "store_loop cfg address val endness is (acc, mw1) = (res, mw')"
      using Cons.prems b Inr by simp
    from Cons.IH [OF this] p1 show ?thesis by (auto intro: keeps_trans)
  qed
qed

lemma simplify_pages_id:
  "simplify_pages ps (m, w) = (res, mw') \<Longrightarrow> mw' = (m, w)"
proof (induction ps)
  case Nil
  then show ?case by simp
next
  case (Cons p ps)
  show ?case
  proof (cases "map_of (pages m) p")
    case None
    then show ?thesis using Cons.prems by simp
  next
    case (Some r)
    have "(heap w r)\<lparr>mo := mo_simplify (mo (heap w r))\<rparr> = heap w r" by (simp add: mo_simplify_def)
    then show ?thesis using Cons Some by simp
  qed
qed

lemma keeps_Memory_store:
  "Memory_store cfg address val endness mw = (res, mw') \<Longrightarrow> keeps other mw mw'"
proof -
  assume a: "Memory_store cfg address val endness mw = (res, mw')"
  show ?thesis
  proof (cases "bv_size address \<noteq> bits (fst mw)")
    case True
    then show ?thesis using a by (simp add: Memory_store_def keeps_refl)
  next
    case False
    obtain r1 mw1 where ra: "resolve_address cfg address (int (bv_size val)) mw = (r1, mw1)"
      by (cases "resolve_address cfg address (int (bv_size val)) mw")
    have p1: "keeps other mw mw1" using ra by (rule keeps_resolve_address)
    show ?thesis
    proof (cases r1)
      case (Inl e)
      then show ?thesis using a False ra p1 by (simp add: Memory_store_def)
    next
      case (Inr address')
      show ?thesis
      proof (cases "bv_size val mod 8 \<noteq> 0")
        case True
        then show ?thesis using a False ra Inr p1 by (simp add: Memory_store_def)
      next
        case m8: False
        obtain r2 mw2 where sl: "store_loop cfg address' val endness (rev [0 ..< bv_size val div 8]) (([], []), mw1) = (r2, mw2)"
          by (cases "store_loop cfg address' val endness (rev [0 ..< bv_size val div 8]) (([], []), mw1)")
        have p2: "keeps other mw mw2" using keeps_store_loop [OF sl] p1 by (auto intro: keeps_trans)
        show ?thesis
        proof (cases r2)
          case (Inl e)
          then show ?thesis using a False ra Inr m8 sl p2 by (simp add: Memory_store_def)
        next
          case (Inr acc)
          obtain pas conds where acc: "acc = (pas, conds)" by (cases acc)
          have sp: "simplify_pages pas mw2 = (res, mw')"
            using a False ra \<open>r1 = Inr address'\<close> m8 sl Inr acc by (simp add: Memory_store_def)
          have "mw' = mw2" using simplify_pages_id [of pas "fst mw2" "snd mw2" res mw'] sp by simp
          then show ?thesis using p2 by simp
        qed
      qed
    qed
  qed
qed


section \<open>A load reads the pages of its memory only\<close>

lemma priv_load_rel:
  assumes "frame m w wa"
  shows "fst (Memory_priv_load pa pi (m, w)) = fst (Memory_priv_load pa pi (m, wa))
         \<and> fst (snd (Memory_priv_load pa pi (m, w))) = m
         \<and> fst (snd (Memory_priv_load pa pi (m, wa))) = m
         \<and> frame m (snd (snd (Memory_priv_load pa pi (m, w)))) (snd (snd (Memory_priv_load pa pi (m, wa))))"
proof (cases "map_of (pages m) pa")
  case None
  then show ?thesis using assms by (simp add: Memory_priv_load_def)
next
  case (Some r)
  then have rm: "r \<in> refs m" by (force simp: refs_def dest: map_of_SomeD)
  then have v: "page_view (heap wa r) = page_view (heap w r)"
    and f: "page_fits (heap wa r) = page_fits (heap w r)"
    using assms by (auto simp: frame_def)
  show ?thesis
  proof (cases "page_fits (heap w r)")
    case False
    then show ?thesis using Some f assms by (simp add: Memory_priv_load_def Page_load_unfit)
  next
    case True
    then have "frame m (set_page r (inited (heap w r)) w) (set_page r (inited (heap wa r)) wa)"
      using assms v f by (auto simp: frame_def)
    then show ?thesis using Some f v True by (simp add: Memory_priv_load_def Page_load_fits)
  qed
qed

lemma load_sym_loop_rel:
  assumes "frame m w wa"
  shows "fst (load_sym_loop cfg pa pi ks (acc, m, w)) = fst (load_sym_loop cfg pa pi ks (acc, m, wa))
         \<and> fst (snd (load_sym_loop cfg pa pi ks (acc, m, w))) = m
         \<and> fst (snd (load_sym_loop cfg pa pi ks (acc, m, wa))) = m
         \<and> frame m (snd (snd (load_sym_loop cfg pa pi ks (acc, m, w))))
                    (snd (snd (load_sym_loop cfg pa pi ks (acc, m, wa))))"
  using assms
proof (induction ks arbitrary: acc w wa)
  case Nil
  then show ?case by simp
next
  case (Cons p ks)
  obtain r0 conds where acc: "acc = (r0, conds)" by (cases acc)
  show ?case
  proof (cases "solver_satisfiable cfg (solver m) [Eq pa (bvv p (bv_size pa))]")
    case False
    then show ?thesis using Cons acc by simp
  next
    case True
    obtain r1 m1 w1 where l1: "Memory_priv_load p pi (m, w) = (r1, m1, w1)"
      by (cases "Memory_priv_load p pi (m, w)")
    obtain r2 m2 w2 where l2: "Memory_priv_load p pi (m, wa) = (r2, m2, w2)"
      by (cases "Memory_priv_load p pi (m, wa)")
    from priv_load_rel [OF Cons.prems, of p pi] l1 l2
    have eq: "r2 = r1" "m1 = m" "m2 = m" and fr: "frame m w1 w2" by auto
    show ?thesis
    proof (cases r1)
      case (Inl e)
      then show ?thesis using acc True l1 l2 eq fr by (simp add: Let_def)
    next
      case (Inr b)
      then show ?thesis using acc True l1 l2 eq Cons.IH [OF fr] by (simp add: Let_def)
    qed
  qed
qed

lemma load_byte_rel:
  assumes "frame m w wa"
  shows "fst (load_byte cfg address i (acc, m, w)) = fst (load_byte cfg address i (acc, m, wa))
         \<and> fst (snd (load_byte cfg address i (acc, m, w))) = m
         \<and> fst (snd (load_byte cfg address i (acc, m, wa))) = m
         \<and> frame m (snd (snd (load_byte cfg address i (acc, m, w))))
                    (snd (snd (load_byte cfg address i (acc, m, wa))))"
proof -
  define pa where "pa = fst (split_bv (BvAdd address (bvv (int i) (bv_size address))) (index_bits m))"
  define pi where "pi = snd (split_bv (BvAdd address (bvv (int i) (bv_size address))) (index_bits m))"
  have tier: "?thesis" if "\<And>x. load_byte cfg address i (acc, m, x) =
       (case Memory_priv_load k pi (m, x) of
          (Inl e, mw') \<Rightarrow> (Inl e, mw')
        | (Inr b, mw') \<Rightarrow> (Inr (concat_res (fst acc) (simplify b), snd acc), mw'))" for k
  proof -
    obtain r1 m1 w1 where l1: "Memory_priv_load k pi (m, w) = (r1, m1, w1)"
      by (cases "Memory_priv_load k pi (m, w)")
    obtain r2 m2 w2 where l2: "Memory_priv_load k pi (m, wa) = (r2, m2, w2)"
      by (cases "Memory_priv_load k pi (m, wa)")
    from priv_load_rel [OF assms, of k pi] l1 l2
    have eq: "r2 = r1" "m1 = m" "m2 = m" and fr: "frame m w1 w2" by auto
    show ?thesis using that [of w] that [of wa] l1 l2 eq fr by (cases r1) simp_all
  qed
  show ?thesis
  proof (cases "symbolic pa")
    case False
    show ?thesis
    proof (cases "bvv_to_long pa")
      case (Inl e)
      then show ?thesis using False assms by (simp add: load_byte_def Let_def pa_def)
    next
      case (Inr k)
      show ?thesis
        by (rule tier [of k]) (use False Inr in \<open>simp add: load_byte_def Let_def pa_def pi_def\<close>)
    qed
  next
    case True
    show ?thesis
    proof (cases "solver_symbolic cfg (solver m) pa")
      case False
      show ?thesis
        by (rule tier [of "solver_evaluate_long cfg (solver m) pa"])
           (use True False in \<open>simp add: load_byte_def Let_def pa_def pi_def\<close>)
    next
      case s: True
      have "load_byte cfg address i (acc, m, x) =
              load_sym_loop cfg pa pi (map fst (pages m)) ((fst acc, []), m, x)" for x
        using True s by (simp add: load_byte_def Let_def pa_def pi_def)
      then show ?thesis using load_sym_loop_rel [OF assms] by simp
    qed
  qed
qed

lemma load_loop_rel:
  assumes "frame m w wa"
  shows "fst (load_loop cfg address is (acc, m, w)) = fst (load_loop cfg address is (acc, m, wa))
         \<and> fst (snd (load_loop cfg address is (acc, m, w))) = m
         \<and> fst (snd (load_loop cfg address is (acc, m, wa))) = m"
  using assms
proof (induction "is" arbitrary: acc w wa)
  case Nil
  then show ?case by simp
next
  case (Cons i "is")
  obtain r1 m1 w1 where l1: "load_byte cfg address i (acc, m, w) = (r1, m1, w1)"
    by (cases "load_byte cfg address i (acc, m, w)")
  obtain r2 m2 w2 where l2: "load_byte cfg address i (acc, m, wa) = (r2, m2, w2)"
    by (cases "load_byte cfg address i (acc, m, wa)")
  from load_byte_rel [OF Cons.prems, of cfg address i acc] l1 l2
  have eq: "r2 = r1" "m1 = m" "m2 = m" and fr: "frame m w1 w2" by auto
  show ?case
  proof (cases r1)
    case (Inl e)
    then show ?thesis using l1 l2 eq by simp
  next
    case (Inr acc')
    then show ?thesis using l1 l2 eq Cons.IH [OF fr, of acc'] by simp
  qed
qed

lemma Memory_load_rel:
  assumes "frame m w wa" and "heuristic_fires cfg m address \<noteq> Inr True"
  shows "fst (Memory_load cfg address sz endness (m, w)) = fst (Memory_load cfg address sz endness (m, wa))"
proof (cases "bv_size address \<noteq> bits m")
  case True
  then show ?thesis by (simp add: Memory_load_def)
next
  case False
  show ?thesis
  proof (cases "heuristic_fires cfg m address")
    case (Inl e)
    then show ?thesis using False by (simp add: Memory_load_def resolve_address_def)
  next
    case (Inr b)
    then have ra: "resolve_address cfg address sz (m, x) = (Inr address, m, x)" for x
      using assms(2) by (simp add: resolve_address_def)
    define ran where "ran = (if endness = ''little'' then rev [0 ..< nat sz] else [0 ..< nat sz])"
    obtain r1 m1 w1 where l1: "load_loop cfg address ran ((None, []), m, w) = (r1, m1, w1)"
      by (cases "load_loop cfg address ran ((None, []), m, w)")
    obtain r2 m2 w2 where l2: "load_loop cfg address ran ((None, []), m, wa) = (r2, m2, w2)"
      by (cases "load_loop cfg address ran ((None, []), m, wa)")
    from load_loop_rel [OF assms(1), of cfg address ran "(None, [])"] l1 l2
    have eq: "r2 = r1" by simp
    show ?thesis
      using False ra l1 l2 eq
      by (cases r1) (auto simp: Memory_load_def ran_def Let_def split: option.splits prod.splits)
  qed
qed


lemma not_symbolic_bvv: "\<not> symbolic (bvv a b)"
  by (simp add: symbolic_def bvv_def simplify_def)

lemma heuristic_concrete: "heuristic_fires cfg m (bvv a b) = Inr False"
  by (simp add: heuristic_fires_def not_symbolic_bvv)

lemma sep_after_copy:
  assumes "table_ok m w" and "distinct (map fst (pages m))"
    and "Memory_copy st (m, w) = (m2, w1)"
  shows "sep m m2 w1"
proof -
  obtain np wx where c: "copy_loop (pages m) ([], w) = (np, wx)" by (cases "copy_loop (pages m) ([], w)")
  have w1: "w1 = wx" and pg: "pages m2 = np" using assms(3) c by (auto simp: Memory_copy_def)
  have np: "np = pages m" using copy_loop_pages [of "[]" "pages m" w] assms(2) c by simp
  from copy_ok [OF assms(3)] assms(1) have e: "ext w w1" and t2: "table_ok m2 w1" by auto
  have t1: "table_ok m w1" using assms(1) e by (rule table_ok_ext)
  have "lazycopy (heap w1 r)" if "r \<in> refs m" for r
    using copy_loop_heap [of "pages m" "[]" w r] c w1 that by (simp add: refs_def)
  then show ?thesis using t1 t2 assms(2) pg np by (simp add: sep_def)
qed

lemma sep_sym: "sep other m w \<Longrightarrow> distinct (map fst (pages other)) \<Longrightarrow> sep m other w"
  by (auto simp: sep_def)

text \<open>
  A memory and its copy, when the store comes right after the copy. Let \<open>m2\<close> be the
  copy of \<open>m\<close> and \<open>w1\<close> the world the copy leaves. A store into \<open>m2\<close> in \<open>w1\<close>, at any
  address and whether it returns or raises, leaves what a load from \<open>m\<close> at a concrete
  address returns (its value or its error) as it was; and a store into \<open>m\<close> right after
  that leaves what a load from the copy returns as it was.
\<close>

theorem copy_on_write_isolation:
  assumes "table_ok m w" and "distinct (map fst (pages m))"
    and "Memory_copy state2 (m, w) = (m2, w1)"
    and "Memory_store cfg address2 val2 endness2 (m2, w1) = (res2, m2', w2)"
    and "Memory_store cfg address3 val3 endness3 (m, w2) = (res3, m', w3)"
  shows "fst (Memory_load cfg (bvv a (bits m)) sz endness (m, w2))
           = fst (Memory_load cfg (bvv a (bits m)) sz endness (m, w1))
       \<and> fst (Memory_load cfg (bvv a (bits m)) sz endness (m2', w3))
           = fst (Memory_load cfg (bvv a (bits m)) sz endness (m2', w2))"
proof -
  have s1: "sep m m2 w1" using assms(1,2,3) by (rule sep_after_copy)
  from keeps_Memory_store [OF assms(4), of m] s1
  have s2: "sep m m2' w2" and f1: "frame m w1 w2" by (auto simp: keeps_def)
  have l1: "fst (Memory_load cfg (bvv a (bits m)) sz endness (m, w1))
          = fst (Memory_load cfg (bvv a (bits m)) sz endness (m, w2))"
    using f1 by (rule Memory_load_rel) (simp add: heuristic_concrete)
  have s3: "sep m2' m w2" using s2 assms(2) by (rule sep_sym)
  from keeps_Memory_store [OF assms(5), of m2'] s3
  have f2: "frame m2' w2 w3" by (auto simp: keeps_def)
  have l2: "fst (Memory_load cfg (bvv a (bits m)) sz endness (m2', w2))
          = fst (Memory_load cfg (bvv a (bits m)) sz endness (m2', w3))"
    using f2 by (rule Memory_load_rel) (simp add: heuristic_concrete)
  show ?thesis using l1 l2 by simp
qed


theorem copy_on_write_isolation_witness:
  "table_ok two_memory two_world \<and> distinct (map fst (pages two_memory))
   \<and> fst (Memory_load amb_cfg (bvv 17 8) 1 ''big'' (two_memory, snd cow_copy))
       = Inr (Select (Array 1 4) (BitVecVal 1 4))
   \<and> fst (Memory_load amb_cfg (bvv 17 8) 1 ''big'' (two_memory, snd (snd cow_store2)))
       = Inr (Select (Array 1 4) (BitVecVal 1 4))
   \<and> fst (Memory_load amb_cfg (bvv 17 8) 1 ''big'' (fst (snd cow_store2), snd (snd cow_store2)))
       = Inr (Select (Store (Array 1 4) (BitVecVal 1 4) (Extract 7 0 (BitVecVal 7 8))) (BitVecVal 1 4))
   \<and> fst (Memory_load amb_cfg (bvv 17 8) 1 ''big'' (fst (snd cow_store2), snd (snd cow_store1)))
       = Inr (Select (Store (Array 1 4) (BitVecVal 1 4) (Extract 7 0 (BitVecVal 7 8))) (BitVecVal 1 4))
   \<and> fst (Memory_load amb_cfg (bvv 17 8) 1 ''big'' (fst (snd cow_store1), snd (snd cow_store1)))
       = Inr (Select (Store (Array 1 4) (BitVecVal 1 4) (Extract 7 0 (BitVecVal 9 8))) (BitVecVal 1 4))"
proof -
  have t: "table_ok two_memory two_world" by code_simp
  have d: "distinct (map fst (pages two_memory))" by (simp add: two_memory_def)
  have b: "bits two_memory = 8" by (simp add: two_memory_def)
  have c: "Memory_copy [] (two_memory, two_world) = (fst cow_copy, snd cow_copy)"
    by (simp add: cow_copy_def)
  have s2: "Memory_store amb_cfg (BitVecVal 17 8) (BitVecVal 7 8) ''big'' (fst cow_copy, snd cow_copy)
              = (fst cow_store2, fst (snd cow_store2), snd (snd cow_store2))"
    by (simp add: cow_store2_def)
  have s1: "Memory_store amb_cfg (BitVecVal 17 8) (BitVecVal 9 8) ''big'' (two_memory, snd (snd cow_store2))
              = (fst cow_store1, fst (snd cow_store1), snd (snd cow_store1))"
    by (simp add: cow_store1_def)
  have v1: "fst (Memory_load amb_cfg (bvv 17 8) 1 ''big'' (two_memory, snd cow_copy))
       = Inr (Select (Array 1 4) (BitVecVal 1 4))"
    by code_simp
  have v2: "fst (Memory_load amb_cfg (bvv 17 8) 1 ''big'' (fst (snd cow_store2), snd (snd cow_store2)))
       = Inr (Select (Store (Array 1 4) (BitVecVal 1 4) (Extract 7 0 (BitVecVal 7 8))) (BitVecVal 1 4))"
    by code_simp
  have v3: "fst (Memory_load amb_cfg (bvv 17 8) 1 ''big'' (fst (snd cow_store1), snd (snd cow_store1)))
       = Inr (Select (Store (Array 1 4) (BitVecVal 1 4) (Extract 7 0 (BitVecVal 9 8))) (BitVecVal 1 4))"
    by code_simp
  from copy_on_write_isolation [OF t d c s2 s1, of 17 1 "''big''", unfolded b]
  show ?thesis using t d v1 v2 v3 by simp
qed

section \<open>Three memories over one page\<close>

text \<open>
  C2. The isolation fails once a page has three holders. Let \<open>m2\<close> and \<open>m3\<close> be two
  copies of \<open>two_memory\<close>; all three tables hold page object 0 for slot 1. The store
  into \<open>m2\<close> at address 17 builds a new page for \<open>m2\<close> and clears the copy-on-write
  mark of object 0, so a load from \<open>two_memory\<close> at 17 still returns the initial byte.
  The store of 9 into \<open>m3\<close> at 17 then finds the mark cleared and writes object 0 in
  place: the table of \<open>m3\<close> keeps object 0, and the load from \<open>two_memory\<close> at 17 now
  returns the byte stored through \<open>m3\<close> (9 instead of 0 when the initial store is zero).
\<close>

theorem copy_twice_store_leaks:
  "pages (fst cow_copy) = pages two_memory \<and> pages (fst cow_copy3) = pages two_memory
   \<and> fst (Memory_load amb_cfg (bvv 17 8) 1 ''big'' (two_memory, snd cow_copy3))
       = Inr (Select (Array 1 4) (BitVecVal 1 4))
   \<and> fst share_store2 = Inr ()
   \<and> fst (Memory_load amb_cfg (bvv 17 8) 1 ''big'' (two_memory, snd (snd share_store2)))
       = Inr (Select (Array 1 4) (BitVecVal 1 4))
   \<and> fst share_store3 = Inr ()
   \<and> pages (fst (snd share_store3)) = pages two_memory
   \<and> fst (Memory_load amb_cfg (bvv 17 8) 1 ''big'' (two_memory, snd (snd share_store3)))
       = Inr (Select (Store (Array 1 4) (BitVecVal 1 4) (Extract 7 0 (BitVecVal 9 8))) (BitVecVal 1 4))
   \<and> bv_eval env0 (Select (Array 1 4) (BitVecVal 1 4)) = 0
   \<and> bv_eval env0 (Select (Store (Array 1 4) (BitVecVal 1 4) (Extract 7 0 (BitVecVal 9 8))) (BitVecVal 1 4)) = 9"
  by code_simp

section \<open>Concrete accesses\<close>



lemma simplify_numeral [simp]: "simplify (BitVecVal v w) = BitVecVal (v mod 2 ^ w) w"
  by (simp add: simplify_def)


lemma not_symbolic_numeral [simp]: "\<not> symbolic (BitVecVal v w)"
  by (simp add: symbolic_def)










lemma closed_bvv [simp]: "closed (bvv a b)"
  by (simp add: bvv_def)




lemma offset_of_mod [simp]: "offset_of m A mod 2 ^ index_bits m = offset_of m A"
  by (simp add: offset_of_def)

















section \<open>The round trip\<close>











end
